theory Spec2Isabelle
  imports Main "HOL-Library.AList" "HOL-Library.Multiset"
begin

section \<open>Data model of the evaluation driver\<close>

text \<open>
  The development follows \<^verbatim>\<open>lm_eval/evaluator.py\<close>, function \<^verbatim>\<open>evaluate\<close>.
  Exceptions of the Python code are values of the type \<open>error\<close>; a computation that
  can raise returns \<open>error + 'a\<close> with \<open>Inl\<close> for the exception.
\<close>

datatype error =
    AttributeError string
  | IndexError
  | AssertionError
  | KeyError
  | ValueError
  | ZeroDivisionError

text \<open>
  A \<^verbatim>\<open>Request\<close> as the driver sees it: the Builder sets \<open>request_type\<close>, \<open>args\<close> and
  \<open>index\<close> (the return index, \<^verbatim>\<open>None\<close> for the whole response); the driver assigns
  \<open>doc_id\<close> and \<open>unique_request_id\<close> (lines 246-247), replacing whatever was there.
\<close>

record 'a Request =
  request_type :: string
  args :: 'a
  index :: "int option"
  doc_id :: nat
  unique_request_id :: nat

text \<open>
  The tuple appended to \<^verbatim>\<open>requests_origin\<close> (lines 252-254):
  \<^verbatim>\<open>(i, task_template_key, doc, doc_id, fewshotex_logging_info, request_return_index)\<close>.
\<close>

record ('d, 'm) origin =
  sub_index :: nat
  task_template_key :: string
  origin_doc :: 'd
  origin_doc_id :: nat
  fewshotex_logging_info :: 'm
  request_return_index :: "int option"

text \<open>
  \<^verbatim>\<open>collections.defaultdict(list)\<close>: a dictionary in insertion order whose missing keys
  read as the empty list. \<open>AList.update\<close> replaces the value of a present key in place
  and puts a new key last, as a Python dictionary does.
\<close>

type_synonym ('k, 'v) defaultdict = "('k \<times> 'v list) list"

definition dd_get :: "('k, 'v) defaultdict \<Rightarrow> 'k \<Rightarrow> 'v list" where
  "dd_get d k = (case map_of d k of None \<Rightarrow> [] | Some vs \<Rightarrow> vs)"

definition dd_append :: "('k, 'v) defaultdict \<Rightarrow> 'k \<Rightarrow> 'v \<Rightarrow> ('k, 'v) defaultdict" where
  "dd_append d k v = AList.update k (dd_get d k @ [v]) d"

section \<open>Request Multiplexer (lines 230-254)\<close>

text \<open>
  The Builder's output for one document: the document, its few-shot logging record and
  the list \<^verbatim>\<open>reqs\<close> returned by \<^verbatim>\<open>construct_requests\<close>. A task contributes its
  task/template key and the documents in the order the loop at line 230 visits them.
\<close>

type_synonym ('a, 'd, 'm) built_doc = "'d \<times> 'm \<times> 'a Request list"
type_synonym ('a, 'd, 'm) task_stream = "string \<times> ('a, 'd, 'm) built_doc list"

type_synonym ('a, 'd, 'm) mux_state =
  "(string, 'a Request) defaultdict \<times> (string, ('d, 'm) origin) defaultdict"

text \<open>Body of the loop at line 245, for the request \<open>req\<close> at position \<open>i\<close> of \<^verbatim>\<open>reqs\<close>.\<close>

definition multiplex_req ::
  "string \<Rightarrow> 'd \<Rightarrow> nat \<Rightarrow> 'm \<Rightarrow> ('a, 'd, 'm) mux_state \<Rightarrow> nat \<times> 'a Request
     \<Rightarrow> ('a, 'd, 'm) mux_state" where
  "multiplex_req key d did info st ireq =
     (case st of (requests, requests_origin) \<Rightarrow>
      case ireq of (i, req) \<Rightarrow>
        let req1 = req\<lparr>doc_id := did\<rparr>;
            req2 = req1\<lparr>unique_request_id := length (dd_get requests_origin (request_type req1))\<rparr>
        in (dd_append requests (request_type req2) req2,
            dd_append requests_origin (request_type req2)
              \<lparr>sub_index = i, task_template_key = key, origin_doc = d, origin_doc_id = did,
               fewshotex_logging_info = info, request_return_index = index req2\<rparr>))"

text \<open>Body of the loop at line 230, for the document at position \<open>did\<close>.\<close>

definition multiplex_doc ::
  "string \<Rightarrow> ('a, 'd, 'm) mux_state \<Rightarrow> nat \<times> ('a, 'd, 'm) built_doc \<Rightarrow> ('a, 'd, 'm) mux_state" where
  "multiplex_doc key st idoc =
     (case idoc of (did, d, info, reqs) \<Rightarrow>
        foldl (multiplex_req key d did info) st (enumerate 0 reqs))"

text \<open>Body of the loop at line 215.\<close>

definition multiplex_task ::
  "('a, 'd, 'm) mux_state \<Rightarrow> ('a, 'd, 'm) task_stream \<Rightarrow> ('a, 'd, 'm) mux_state" where
  "multiplex_task st task = (case task of (key, docs) \<Rightarrow>
      foldl (multiplex_doc key) st (enumerate 0 docs))"

definition multiplex :: "('a, 'd, 'm) task_stream list \<Rightarrow> ('a, 'd, 'm) mux_state" where
  "multiplex tasks = foldl multiplex_task ([], []) tasks"

section \<open>Batch Executor (lines 272-353)\<close>

text \<open>
  \<^verbatim>\<open>DataLoader(dataset, batch_size=batch_size, shuffle=False)\<close>: the requests of one
  type, in construction order, cut into consecutive batches of \<open>B\<close> items, the last one
  possibly shorter. A batch size of zero is refused when the loader is built; see
  \<open>execute\<close>.
\<close>

function DataLoader :: "nat \<Rightarrow> 'x list \<Rightarrow> 'x list list" where
  "DataLoader B xs = (if B = 0 \<or> xs = [] then [] else take B xs # DataLoader B (drop B xs))"
  by pat_completeness auto
termination
  by (relation "measure (\<lambda>(B, xs). length xs)") auto

declare DataLoader.simps [simp del]

text \<open>
  Modelled from the spec: what \<^verbatim>\<open>accelerator.prepare_data_loader\<close> and
  \<^verbatim>\<open>accelerator.gather\<close> give the driver under \<open>W\<close>-way replication (section 4.2):
  each step hands every worker one batch of \<open>B\<close> items, short shards are padded to equal
  length with copies of real elements, and the gather concatenates the workers' streams
  in rank order. After the gather, step \<open>s\<close> therefore carries items \<open>s * B * W\<close> up to
  \<open>(s + 1) * B * W - 1\<close> of the padded request list. The padding policy \<open>pad\<close> maps
  the request list and the number of missing items to the copies that fill the last step.
  With one worker there is no replication and no padding.
\<close>

definition even_batches :: "('x list \<Rightarrow> nat \<Rightarrow> 'x list) \<Rightarrow> nat \<Rightarrow> 'x list \<Rightarrow> 'x list" where
  "even_batches pad G xs = xs @ pad xs ((G - length xs mod G) mod G)"

definition prepare_data_loader ::
  "('x list \<Rightarrow> nat \<Rightarrow> 'x list) \<Rightarrow> nat \<Rightarrow> nat \<Rightarrow> 'x list \<Rightarrow> 'x list list" where
  "prepare_data_loader pad W B xs =
     (if 1 < W then DataLoader (B * W) (even_batches pad (B * W) xs) else DataLoader B xs)"

text \<open>The padding of section 4.3: copies of the last real element.\<close>

definition pad_tail :: "'x list \<Rightarrow> nat \<Rightarrow> 'x list" where
  "pad_tail xs p = (if xs = [] then [] else replicate p (last xs))"

text \<open>Padding that starts again at the head of the list.\<close>

definition pad_cycle :: "'x list \<Rightarrow> nat \<Rightarrow> 'x list" where
  "pad_cycle xs p = take p (concat (replicate p xs))"

text \<open>Python's \<^verbatim>\<open>xs[j]\<close>, \<^verbatim>\<open>xs[:k]\<close> and \<^verbatim>\<open>list(zip(*xss))\<close>.\<close>

definition py_getitem :: "'x list \<Rightarrow> int \<Rightarrow> error + 'x" where
  "py_getitem xs j =
     (let n = int (length xs); j' = (if j < 0 then n + j else j)
      in if 0 \<le> j' \<and> j' < n then Inr (xs ! nat j') else Inl IndexError)"

definition py_slice_to :: "'x list \<Rightarrow> int \<Rightarrow> 'x list" where
  "py_slice_to xs k = (if k < 0 then take (nat (int (length xs) + k)) xs else take (nat k) xs)"

definition zip_star :: "'x list list \<Rightarrow> 'x list list" where
  "zip_star xss = (case xss of [] \<Rightarrow> []
     | ys # yss \<Rightarrow> map (\<lambda>j. map (\<lambda>xs. xs ! j) xss)
                      [0..<foldr (\<lambda>zs. min (length zs)) yss (length ys)])"

text \<open>A loop whose body can raise: the first exception ends it.\<close>

fun foldM :: "('s \<Rightarrow> 'x \<Rightarrow> error + 's) \<Rightarrow> 's \<Rightarrow> 'x list \<Rightarrow> error + 's" where
  "foldM f s [] = Inr s"
| "foldM f s (x # xs) = (case f s x of Inl e \<Rightarrow> Inl e | Inr s' \<Rightarrow> foldM f s' xs)"

text \<open>
  What reaches the scorer for one request: the whole row of the backend's answer when the
  return index is \<^verbatim>\<open>None\<close>, else the selected component (line 347).
\<close>

datatype 'r response = Whole "'r list" | Component 'r

definition unwrap :: "'r list \<Rightarrow> int option \<Rightarrow> error + 'r response" where
  "unwrap response ri = (case ri of None \<Rightarrow> Inr (Whole response)
     | Some j \<Rightarrow> (case py_getitem response j of Inl e \<Rightarrow> Inl e | Inr r \<Rightarrow> Inr (Component r)))"

text \<open>
  An entry of \<^verbatim>\<open>process_response_queue\<close> (line 352):
  \<^verbatim>\<open>(i, response, fewshotex_logging_info, unique_request_id)\<close>; the queue is keyed by
  \<^verbatim>\<open>(task_template_key, int(doc_id))\<close>.
\<close>

type_synonym ('r, 'm) entry = "nat \<times> 'r response \<times> 'm \<times> nat"
type_synonym ('r, 'm) queue = "(string \<times> nat, ('r, 'm) entry) defaultdict"

text \<open>
  Body of the loop at line 342 for one \<^verbatim>\<open>(unique_request_id, doc_id, response)\<close> of the
  zipped streams. \<open>origin_list\<close> is \<^verbatim>\<open>requests_origin[request_type]\<close>; indexing it
  beyond its end raises.
\<close>

definition route ::
  "('d, 'm) origin list \<Rightarrow> ('r, 'm) queue \<Rightarrow> nat \<times> nat \<times> 'r list \<Rightarrow> error + ('r, 'm) queue" where
  "route origin_list queue t =
     (case t of (uid, did, response) \<Rightarrow>
        if uid < length origin_list then
          let org = origin_list ! uid in
          if did \<noteq> origin_doc_id org then Inl AssertionError
          else (case unwrap response (request_return_index org) of
                  Inl e \<Rightarrow> Inl e
                | Inr resp \<Rightarrow>
                    Inr (dd_append queue (task_template_key org, did)
                           (sub_index org, resp, fewshotex_logging_info org, uid)))
        else Inl IndexError)"

text \<open>
  The backend: \<^verbatim>\<open>getattr(model, request_type)\<close> is a partial map from capability names
  to capabilities. A capability such as \<^verbatim>\<open>loglikelihood\<close> (\<^verbatim>\<open>huggingface.py\<close>,
  \<^verbatim>\<open>_loglikelihood_tokens\<close>) returns a pair of streams with one element per batch
  item: the log-probabilities and the exact-match flags.
\<close>

type_synonym ('a, 'r) LM = "string \<Rightarrow> ('a \<Rightarrow> 'r \<times> 'r) option"

text \<open>
  Body of the loop at line 306 for batch number \<open>step\<close>. Under replication
  (\<open>distributed\<close>) the batch is the gathered one, and lines 326-332 work on the
  \<^emph>\<open>pair\<close> of gathered streams: the slice of line 329 and the \<^verbatim>\<open>len\<close> of line 332
  are those of that pair. \<open>n_steps\<close> is \<^verbatim>\<open>len(requests_data_loader)\<close> (at least one
  inside the loop) and \<open>n_dataset\<close> is \<^verbatim>\<open>len(requests_data_loader.dataset)\<close>.
\<close>

definition exec_batch ::
  "('a, 'r) LM \<Rightarrow> bool \<Rightarrow> string \<Rightarrow> nat \<Rightarrow> nat \<Rightarrow> ('d, 'm) origin list
     \<Rightarrow> nat \<times> ('r, 'm) queue \<Rightarrow> nat \<times> 'a Request list \<Rightarrow> error + nat \<times> ('r, 'm) queue" where
  "exec_batch model distributed rt n_steps n_dataset origin_list st sbatch =
     (case st of (samples_seen, queue) \<Rightarrow>
      case sbatch of (step, request_batch) \<Rightarrow>
      let unique_request_ids = map unique_request_id request_batch;
          doc_ids = map doc_id request_batch
      in case model rt of
           None \<Rightarrow> Inl (AttributeError rt)
         | Some f \<Rightarrow>
             let responses = [map (\<lambda>r. fst (f (args r))) request_batch,
                              map (\<lambda>r. snd (f (args r))) request_batch];
                 responses1 = (if distributed \<and> step = n_steps - 1
                               then py_slice_to responses (int n_dataset - int samples_seen)
                               else responses);
                 samples_seen1 = (if distributed \<and> step \<noteq> n_steps - 1
                                  then samples_seen + length responses
                                  else samples_seen);
                 responses2 = (if 1 < length responses1 then zip_star responses1 else responses1)
             in case foldM (route origin_list) queue
                       (zip unique_request_ids (zip doc_ids responses2)) of
                  Inl e \<Rightarrow> Inl e
                | Inr queue1 \<Rightarrow> Inr (samples_seen1, queue1))"

text \<open>Body of the loop at line 304 for one request type.\<close>

definition exec_type ::
  "('a, 'r) LM \<Rightarrow> ('a Request list \<Rightarrow> nat \<Rightarrow> 'a Request list) \<Rightarrow> nat \<Rightarrow> nat
     \<Rightarrow> (string, ('d, 'm) origin) defaultdict
     \<Rightarrow> ('r, 'm) queue \<Rightarrow> string \<times> 'a Request list \<Rightarrow> error + ('r, 'm) queue" where
  "exec_type model pad W B requests_origin queue tr =
     (case tr of (rt, request_list) \<Rightarrow>
        let requests_data_loader = prepare_data_loader pad W B request_list
        in case foldM (exec_batch model (1 < W) rt (length requests_data_loader)
                         (length request_list) (dd_get requests_origin rt))
                  (0, queue) (enumerate 0 requests_data_loader) of
             Inl e \<Rightarrow> Inl e
           | Inr (samples_seen, queue1) \<Rightarrow> Inr queue1)"

text \<open>
  Lines 272-353: the loaders are built for every type first (a batch size of zero is
  refused there), then the types are executed in the order of their first request.
\<close>

definition execute ::
  "('a, 'r) LM \<Rightarrow> ('a Request list \<Rightarrow> nat \<Rightarrow> 'a Request list) \<Rightarrow> nat \<Rightarrow> nat
     \<Rightarrow> ('a, 'd, 'm) mux_state \<Rightarrow> error + ('r, 'm) queue" where
  "execute model pad W B st =
     (case st of (requests, requests_origin) \<Rightarrow>
        if B = 0 \<and> requests \<noteq> [] then Inl ValueError
        else foldM (exec_type model pad W B requests_origin) [] requests)"

section \<open>Response Reconciler (lines 357-367)\<close>

text \<open>The loop at line 360 with its set of ids already seen.\<close>

definition dedup_step ::
  "nat set \<times> ('r, 'm) entry list \<Rightarrow> ('r, 'm) entry \<Rightarrow> nat set \<times> ('r, 'm) entry list" where
  "dedup_step st per_doc_request =
     (case st of (unique_request_ids, filtered_per_doc_requests) \<Rightarrow>
        if snd (snd (snd per_doc_request)) \<notin> unique_request_ids
        then (insert (snd (snd (snd per_doc_request))) unique_request_ids,
              filtered_per_doc_requests @ [per_doc_request])
        else (unique_request_ids, filtered_per_doc_requests))"

definition dedup :: "('r, 'm) entry list \<Rightarrow> ('r, 'm) entry list" where
  "dedup per_doc_requests = snd (foldl dedup_step ({}, []) per_doc_requests)"

text \<open>
  Lines 364-367: the surviving entries sorted by their first component (Python's sort
  is stable, as \<open>sort_key\<close> is), the responses in that order, and the logging record of
  the first sorted entry; \<^verbatim>\<open>[...][0]\<close> raises on an empty list.
\<close>

definition sorted_bucket :: "('r, 'm) entry list \<Rightarrow> ('r, 'm) entry list" where
  "sorted_bucket per_doc_requests = sort_key fst (dedup per_doc_requests)"

definition per_doc_results :: "('r, 'm) entry list \<Rightarrow> 'r response list" where
  "per_doc_results per_doc_requests = map (\<lambda>x. fst (snd x)) (sorted_bucket per_doc_requests)"

definition fewshot_logging_info :: "('r, 'm) entry list \<Rightarrow> error + 'm" where
  "fewshot_logging_info per_doc_requests =
     (case map (\<lambda>x. fst (snd (snd x))) (sorted_bucket per_doc_requests) of
        [] \<Rightarrow> Inl IndexError
      | info # _ \<Rightarrow> Inr info)"

text \<open>The triples \<^verbatim>\<open>(task_template_key, doc_id, i)\<close> that survive in the queue.\<close>

definition recovered :: "('r, 'm) queue \<Rightarrow> (string \<times> nat \<times> nat) list" where
  "recovered queue =
     concat (map (\<lambda>b. map (\<lambda>x. (fst (fst b), snd (fst b), fst x)) (sorted_bucket (snd b))) queue)"

section \<open>Scorer and Aggregator (lines 388-418)\<close>

text \<open>
  The reduction functions and the standard-error estimators belong to the tasks and to
  \<^verbatim>\<open>lm_eval.api.metric\<close>. They may raise, and an estimator that resamples draws from a
  random source: both take the state \<open>'s\<close> of that source and return the new one.
\<close>

type_synonym ('v, 's) reducer = "'v list \<Rightarrow> 's \<Rightarrow> error + 'v \<times> 's"

datatype ('v, 'l) field = Name "string option" | Value 'v | Logged 'l

type_synonym ('v, 'l) result_dict = "(string \<times> ('v, 'l) field) list"

text \<open>A dictionary display \<^verbatim>\<open>{k1: v1, ..., **d}\<close>: later keys replace earlier ones.\<close>

definition dict_of :: "('k \<times> 'v) list \<Rightarrow> ('k \<times> 'v) list" where
  "dict_of kvs = foldl (\<lambda>d kv. AList.update (fst kv) (snd kv) d) [] kvs"

text \<open>\<^verbatim>\<open>results[key][k] = v\<close> on a \<^verbatim>\<open>defaultdict(dict)\<close>.\<close>

definition set_item ::
  "(string \<times> ('v, 'l) result_dict) list \<Rightarrow> string \<Rightarrow> string \<Rightarrow> ('v, 'l) field
     \<Rightarrow> (string \<times> ('v, 'l) result_dict) list" where
  "set_item results key k v =
     AList.update key (AList.update k v (case map_of results key of None \<Rightarrow> [] | Some d \<Rightarrow> d)) results"

text \<open>The iteration count handed to \<^verbatim>\<open>stderr_for_metric\<close> (lines 411-413).\<close>

definition stderr_iters :: "string \<Rightarrow> nat \<Rightarrow> nat" where
  "stderr_iters metric bootstrap_iters =
     (if metric \<in> set [''bleu'', ''chrf'', ''ter''] then min bootstrap_iters 1000 else bootstrap_iters)"

text \<open>
  Body of the loop at line 390 for one \<^verbatim>\<open>((task_template_key, metric), items)\<close> of
  \<^verbatim>\<open>vals\<close>. The parameters stand for code outside this file: \<open>split_key\<close> for
  \<^verbatim>\<open>_split_task_template_key\<close>, \<open>aggregation key\<close> for
  \<^verbatim>\<open>task_dict[key].aggregation()\<close>, \<open>get_logging_info key\<close> for the task's logging
  record and \<open>stderr_for_metric\<close> for the function of that name. The state is
  \<^verbatim>\<open>results\<close>, \<^verbatim>\<open>metric_results\<close> and the random source.
\<close>

definition aggregate_step ::
  "(string \<Rightarrow> string \<times> string option) \<Rightarrow> (string \<Rightarrow> string \<Rightarrow> ('v, 's) reducer option)
     \<Rightarrow> (string \<Rightarrow> (string \<times> 'l) list)
     \<Rightarrow> (('v, 's) reducer \<Rightarrow> nat \<Rightarrow> ('v, 's) reducer option) \<Rightarrow> nat
     \<Rightarrow> (string \<times> ('v, 'l) result_dict) list \<times> ('v, 'l) result_dict list \<times> 's
     \<Rightarrow> (string \<times> string) \<times> 'v list
     \<Rightarrow> error + (string \<times> ('v, 'l) result_dict) list \<times> ('v, 'l) result_dict list \<times> 's" where
  "aggregate_step split_key aggregation get_logging_info stderr_for_metric bootstrap_iters st kv =
     (case st of (results, metric_results, s) \<Rightarrow>
      case kv of ((key, metric), items) \<Rightarrow>
      case split_key key of (task_name, prompt_name) \<Rightarrow>
      let results1 = set_item results key ''task_name'' (Name (Some task_name));
          results2 = set_item results1 key ''prompt_name'' (Name prompt_name)
      in case aggregation key metric of
           None \<Rightarrow> Inl KeyError
         | Some reduce \<Rightarrow>
      (case reduce items s of
         Inl e \<Rightarrow> Inl e
       | Inr (v1, s1) \<Rightarrow>
      let results3 = set_item results2 key metric (Value v1)
      in case reduce items s1 of
           Inl e \<Rightarrow> Inl e
         | Inr (v2, s2) \<Rightarrow>
      let mr = dict_of ([(''task_name'', Name (Some task_name)), (''prompt_name'', Name prompt_name),
                         (metric, Value v2)]
                        @ map (\<lambda>kl. (fst kl, Logged (snd kl))) (get_logging_info key))
      in case stderr_for_metric reduce (stderr_iters metric bootstrap_iters) of
           None \<Rightarrow> Inr (results3, metric_results @ [mr], s2)
         | Some stderr \<Rightarrow>
      (case stderr items s2 of
         Inl e \<Rightarrow> Inl e
       | Inr (e1, s3) \<Rightarrow>
      let results4 = set_item results3 key (metric @ ''_stderr'') (Value e1)
      in case stderr items s3 of
           Inl e \<Rightarrow> Inl e
         | Inr (e2, s4) \<Rightarrow>
             Inr (results4,
                  metric_results @ [AList.update (metric @ ''_stderr'') (Value e2) mr], s4))))"

definition aggregate ::
  "(string \<Rightarrow> string \<times> string option) \<Rightarrow> (string \<Rightarrow> string \<Rightarrow> ('v, 's) reducer option)
     \<Rightarrow> (string \<Rightarrow> (string \<times> 'l) list)
     \<Rightarrow> (('v, 's) reducer \<Rightarrow> nat \<Rightarrow> ('v, 's) reducer option) \<Rightarrow> nat
     \<Rightarrow> 's \<Rightarrow> ((string \<times> string) \<times> 'v list) list
     \<Rightarrow> error + (string \<times> ('v, 'l) result_dict) list \<times> ('v, 'l) result_dict list \<times> 's" where
  "aggregate split_key aggregation get_logging_info stderr_for_metric bootstrap_iters s vals =
     foldM (aggregate_step split_key aggregation get_logging_info stderr_for_metric bootstrap_iters)
       ([], [], s) vals"

text \<open>\<^verbatim>\<open>d[key][k]\<close> in \<^verbatim>\<open>table_results\<close> and \<^verbatim>\<open>d[k]\<close> in a record of \<^verbatim>\<open>results\<close>.\<close>

definition table_lookup ::
  "(string \<times> ('v, 'l) result_dict) list \<Rightarrow> string \<Rightarrow> string \<Rightarrow> ('v, 'l) field option" where
  "table_lookup results key k = (case map_of results key of None \<Rightarrow> None | Some d \<Rightarrow> map_of d k)"

section \<open>Descriptions used in the statements\<close>

text \<open>
  The Builder's stream flattened into one event per request, in the order in which the
  three nested loops visit them: key, document, position of the document, logging
  record, position of the request in \<^verbatim>\<open>reqs\<close>, request.
\<close>

type_synonym ('a, 'd, 'm) event = "string \<times> 'd \<times> nat \<times> 'm \<times> nat \<times> 'a Request"

definition doc_events :: "string \<Rightarrow> nat \<times> ('a, 'd, 'm) built_doc \<Rightarrow> ('a, 'd, 'm) event list" where
  "doc_events key idoc = (case idoc of (did, d, info, reqs) \<Rightarrow>
      map (\<lambda>ireq. (key, d, did, info, ireq)) (enumerate 0 reqs))"

definition task_events :: "('a, 'd, 'm) task_stream \<Rightarrow> ('a, 'd, 'm) event list" where
  "task_events task = (case task of (key, docs) \<Rightarrow> concat (map (doc_events key) (enumerate 0 docs)))"

definition events :: "('a, 'd, 'm) task_stream list \<Rightarrow> ('a, 'd, 'm) event list" where
  "events tasks = concat (map task_events tasks)"

definition multiplex_event :: "('a, 'd, 'm) mux_state \<Rightarrow> ('a, 'd, 'm) event \<Rightarrow> ('a, 'd, 'm) mux_state" where
  "multiplex_event st ev = (case ev of (key, d, did, info, ireq) \<Rightarrow> multiplex_req key d did info st ireq)"

definition ev_type :: "('a, 'd, 'm) event \<Rightarrow> string" where
  "ev_type ev = (case ev of (key, d, did, info, i, req) \<Rightarrow> request_type req)"

definition ev_origin :: "('a, 'd, 'm) event \<Rightarrow> ('d, 'm) origin" where
  "ev_origin ev = (case ev of (key, d, did, info, i, req) \<Rightarrow>
     \<lparr>sub_index = i, task_template_key = key, origin_doc = d, origin_doc_id = did,
      fewshotex_logging_info = info, request_return_index = index req\<rparr>)"

definition ev_request :: "nat \<times> ('a, 'd, 'm) event \<Rightarrow> 'a Request" where
  "ev_request jev = (case jev of (j, key, d, did, info, i, req) \<Rightarrow>
     req\<lparr>doc_id := did, unique_request_id := j\<rparr>)"


text \<open>The last component of a queue entry, \<^verbatim>\<open>per_doc_request[-1]\<close>.\<close>

abbreviation entry_uid :: "('r, 'm) entry \<Rightarrow> nat" where
  "entry_uid x \<equiv> snd (snd (snd x))"

fun first_seen :: "nat set \<Rightarrow> ('r, 'm) entry list \<Rightarrow> ('r, 'm) entry list" where
  "first_seen S [] = []"
| "first_seen S (x # xs) =
     (if entry_uid x \<in> S then first_seen S xs else x # first_seen (insert (entry_uid x) S) xs)"


text \<open>The item of the zipped streams that a request gives in an ungathered batch.\<close>

definition triple :: "('a \<Rightarrow> 'r \<times> 'r) \<Rightarrow> 'a Request \<Rightarrow> nat \<times> nat \<times> 'r list" where
  "triple f = (\<lambda>r. (unique_request_id r, doc_id r, [fst (f (args r)), snd (f (args r))]))"

text \<open>The record of \<^verbatim>\<open>results\<close> before a standard error is added (lines 400-405).\<close>

definition base_record ::
  "string \<times> string option \<Rightarrow> string \<Rightarrow> 'v \<Rightarrow> (string \<times> 'l) list \<Rightarrow> ('v, 'l) result_dict" where
  "base_record names metric v logging =
     dict_of ([(''task_name'', Name (Some (fst names))), (''prompt_name'', Name (snd names)),
               (metric, Value v)] @ map (\<lambda>kl. (fst kl, Logged (snd kl))) logging)"

section \<open>The stream of routed responses\<close>

text \<open>
  The items that the loop at line 342 routes, as one list per request type: what
  \<^verbatim>\<open>zip(unique_request_ids, doc_ids, responses)\<close> yields for each batch, batch after
  batch, with the running \<^verbatim>\<open>samples_seen\<close> of lines 329 and 332; and the queue entry
  that line 351 appends for such an item, with the bucket it is appended to.
\<close>

definition ids :: "'a Request \<Rightarrow> nat \<times> nat" where
  "ids r = (unique_request_id r, doc_id r)"

definition id2 :: "nat \<times> nat \<times> 'r list \<Rightarrow> nat \<times> nat" where
  "id2 t = (fst t, fst (snd t))"

definition kv_of ::
  "('d, 'm) origin list \<Rightarrow> nat \<times> nat \<times> 'r list \<Rightarrow> (string \<times> nat) \<times> ('r, 'm) entry" where
  "kv_of ol t =
     ((task_template_key (ol ! fst t), fst (snd t)),
      (sub_index (ol ! fst t),
       (case unwrap (snd (snd t)) (request_return_index (ol ! fst t)) of
          Inl e \<Rightarrow> Whole (snd (snd t)) | Inr r \<Rightarrow> r),
       fewshotex_logging_info (ol ! fst t), fst t))"

definition batch_stream ::
  "('a \<Rightarrow> 'r \<times> 'r) \<Rightarrow> bool \<Rightarrow> nat \<Rightarrow> nat \<Rightarrow> nat \<Rightarrow> nat \<Rightarrow> 'a Request list
     \<Rightarrow> (nat \<times> nat \<times> 'r list) list" where
  "batch_stream f distributed n_steps n_dataset samples_seen step request_batch =
     (let responses = [map (\<lambda>r. fst (f (args r))) request_batch,
                       map (\<lambda>r. snd (f (args r))) request_batch];
          responses1 = (if distributed \<and> step = n_steps - 1
                        then py_slice_to responses (int n_dataset - int samples_seen)
                        else responses);
          responses2 = (if 1 < length responses1 then zip_star responses1 else responses1)
      in zip (map unique_request_id request_batch) (zip (map doc_id request_batch) responses2))"

definition seen_after :: "bool \<Rightarrow> nat \<Rightarrow> nat \<Rightarrow> nat \<Rightarrow> nat" where
  "seen_after distributed n step seen = (if distributed \<and> step \<noteq> n - 1 then seen + 2 else seen)"

fun type_stream ::
  "('a \<Rightarrow> 'r \<times> 'r) \<Rightarrow> bool \<Rightarrow> nat \<Rightarrow> nat \<Rightarrow> nat \<Rightarrow> (nat \<times> 'a Request list) list
     \<Rightarrow> (nat \<times> nat \<times> 'r list) list" where
  "type_stream f distributed n_steps n_dataset samples_seen [] = []"
| "type_stream f distributed n_steps n_dataset samples_seen (sb # sbs) =
     batch_stream f distributed n_steps n_dataset samples_seen (fst sb) (snd sb)
     @ type_stream f distributed n_steps n_dataset
         (if distributed \<and> fst sb \<noteq> n_steps - 1 then samples_seen + 2 else samples_seen) sbs"

definition stream_of ::
  "('a, 'r) LM \<Rightarrow> ('a Request list \<Rightarrow> nat \<Rightarrow> 'a Request list) \<Rightarrow> nat \<Rightarrow> nat
     \<Rightarrow> string \<times> 'a Request list \<Rightarrow> (nat \<times> nat \<times> 'r list) list" where
  "stream_of model pad W B tr =
     type_stream (the (model (fst tr))) (1 < W)
       (length (prepare_data_loader pad W B (snd tr))) (length (snd tr)) 0
       (enumerate 0 (prepare_data_loader pad W B (snd tr)))"

definition routed ::
  "('a, 'r) LM \<Rightarrow> ('a Request list \<Rightarrow> nat \<Rightarrow> 'a Request list) \<Rightarrow> nat \<Rightarrow> nat
     \<Rightarrow> (string, ('d, 'm) origin) defaultdict \<Rightarrow> string \<times> 'a Request list
     \<Rightarrow> ((string \<times> nat) \<times> ('r, 'm) entry) list" where
  "routed model pad W B os tr = map (kv_of (dd_get os (fst tr))) (stream_of model pad W B tr)"

text \<open>Line 351 for one routed entry.\<close>

abbreviation app :: "('k, 'v) defaultdict \<Rightarrow> 'k \<times> 'v \<Rightarrow> ('k, 'v) defaultdict" where
  "app q kv \<equiv> dd_append q (fst kv) (snd kv)"

text \<open>
  The triples of request construction, in construction order; the bucket and the
  triple of a construction event; and, for a routed entry, its bucket, position and
  dispatch id.
\<close>

definition ev_bucket :: "('a, 'd, 'm) event \<Rightarrow> string \<times> nat" where
  "ev_bucket ev = (case ev of (key, d, did, info, i, req) \<Rightarrow> (key, did))"

definition ev_triple :: "('a, 'd, 'm) event \<Rightarrow> string \<times> nat \<times> nat" where
  "ev_triple ev = (case ev of (key, d, did, info, i, req) \<Rightarrow> (key, did, i))"

definition constructed :: "('a, 'd, 'm) task_stream list \<Rightarrow> (string \<times> nat \<times> nat) list" where
  "constructed tasks =
     concat (map (\<lambda>task. concat (map (\<lambda>idoc. map (\<lambda>ireq. (fst task, fst idoc, fst ireq))
                                                    (enumerate 0 (snd (snd (snd idoc)))))
                                     (enumerate 0 (snd task)))) tasks)"

definition skel :: "(string \<times> nat) \<times> ('r, 'm) entry \<Rightarrow> (string \<times> nat) \<times> nat \<times> nat" where
  "skel kv = (fst kv, fst (snd kv), entry_uid (snd kv))"

definition ev_at :: "('a, 'd, 'm) event list \<Rightarrow> string \<times> nat \<Rightarrow> ('a, 'd, 'm) event" where
  "ev_at evs tag = filter (\<lambda>e. ev_type e = fst tag) evs ! snd tag"

definition tag_skel :: "('a, 'd, 'm) event list \<Rightarrow> string \<times> nat \<Rightarrow> (string \<times> nat) \<times> nat \<times> nat" where
  "tag_skel evs tag = (ev_bucket (ev_at evs tag), snd (snd (ev_triple (ev_at evs tag))), snd tag)"

definition type_tags :: "string \<times> 'a Request list \<Rightarrow> (string \<times> nat) list" where
  "type_tags tr = map (Pair (fst tr)) [0..<length (snd tr)]"


section \<open>A small run\<close>

text \<open>
  \<^verbatim>\<open>Request(request_type, args, index)\<close> as the Builder creates it, and one task with
  three documents that ask for five scored continuations in all.
\<close>

definition mk_request :: "string \<Rightarrow> 'a \<Rightarrow> int option \<Rightarrow> 'a Request" where
  "mk_request rt a ri = \<lparr>request_type = rt, args = a, index = ri, doc_id = 0, unique_request_id = 0\<rparr>"

definition example_tasks :: "(nat, string, string) task_stream list" where
  "example_tasks =
     [(''rte+imply'',
       [(''doc a'', ''shots a'', [mk_request ''loglikelihood'' 10 (Some 0), mk_request ''loglikelihood'' 11 (Some 0)]),
        (''doc b'', ''shots b'', [mk_request ''loglikelihood'' 12 (Some 0), mk_request ''loglikelihood'' 13 (Some 0)]),
        (''doc c'', ''shots c'', [mk_request ''loglikelihood'' 14 None])])]"

definition example_model :: "(nat, int) LM" where
  "example_model = [''loglikelihood'' \<mapsto> (\<lambda>a. (- int a, 1))]"


text \<open>A bucket whose entries arrived with the positions 2, 0, 1.\<close>

definition example_bucket :: "(int, string) entry list" where
  "example_bucket = [(2, Component 30, ''shots'', 7), (0, Component 10, ''shots'', 5),
                     (1, Component 20, ''shots'', 6)]"

text \<open>The same run followed by a task that asks for a capability the backend lacks.\<close>

definition example_unregistered :: "(nat, string, string) task_stream list" where
  "example_unregistered =
     example_tasks @ [(''wic+prompt'', [(''doc d'', ''shots d'', [mk_request ''perplexity'' 15 None])])]"

text \<open>The queue after the second request of the first document has been routed.\<close>

definition example_queue :: "(int, string) queue" where
  "example_queue = [((''rte+imply'', 0), [(1, Component (- 11), ''shots a'', 1)])]"

text \<open>
  An aggregation run: the task/template key is split at \<open>+\<close>, the metric \<open>acc\<close> is reduced
  by the mean, \<open>example_spread\<close> is an estimator that depends on the values only and
  \<open>example_resample\<close> one that draws from the random source.
\<close>

definition example_split :: "string \<Rightarrow> string \<times> string option" where
  "example_split key =
     (takeWhile (\<lambda>c. c \<noteq> CHR ''+'') key, Some (drop 1 (dropWhile (\<lambda>c. c \<noteq> CHR ''+'') key)))"

definition example_mean :: "(int, nat) reducer" where
  "example_mean items s =
     (if items = [] then Inl ZeroDivisionError else Inr (sum_list items div int (length items), s))"

definition example_spread :: "(int, nat) reducer" where
  "example_spread items s =
     (if items = [] then Inl ValueError
      else Inr (foldr max items (hd items) - foldr min items (hd items), s))"

definition example_resample :: "(int, nat) reducer" where
  "example_resample items s =
     (if items = [] then Inl ValueError else Inr (items ! (s mod length items), Suc s))"

definition example_aggregation :: "string \<Rightarrow> string \<Rightarrow> (int, nat) reducer option" where
  "example_aggregation key metric = (if metric = ''acc'' then Some example_mean else None)"

definition example_logging :: "string \<Rightarrow> (string \<times> string) list" where
  "example_logging key = [(''prompt_id'', ''p1'')]"

definition example_step ::
  "((int, nat) reducer \<Rightarrow> nat \<Rightarrow> (int, nat) reducer option) \<Rightarrow> int list
     \<Rightarrow> error + (string \<times> (int, string) result_dict) list \<times> (int, string) result_dict list \<times> nat" where
  "example_step stderr_for_metric items =
     aggregate_step example_split example_aggregation example_logging stderr_for_metric 100000
       ([], [], 0) ((''rte+imply'', ''acc''), items)"

text \<open>
  One document whose two requests have different types, and a backend that provides
  both capabilities.
\<close>

definition example_mixed :: "(nat, string, string) task_stream list" where
  "example_mixed =
     [(''rte+imply'',
       [(''doc a'', ''shots a'', [mk_request ''loglikelihood'' 10 (Some 0), mk_request ''greedy_until'' 11 None])])]"

definition example_both :: "(nat, int) LM" where
  "example_both = example_model(''greedy_until'' \<mapsto> (\<lambda>a. (int a, 0)))"

text \<open>The queue of the small run with two workers and batch size 2.\<close>

definition example_gathered :: "(int, string) queue" where
  "example_gathered =
     [((''rte+imply'', 0),
       [(0, Component (- 10), ''shots a'', 0), (1, Component (- 11), ''shots a'', 1),
        (0, Component (- 10), ''shots a'', 0), (1, Component (- 11), ''shots a'', 1)]),
      ((''rte+imply'', 1),
       [(0, Component (- 12), ''shots b'', 2), (1, Component (- 13), ''shots b'', 3),
        (0, Component (- 12), ''shots b'', 2)]),
      ((''rte+imply'', 2), [(0, Whole [- 14, 1], ''shots c'', 4)])]"

text \<open>
  The grouped requests of the small run, with the document id of request 2 changed
  from 1 to 0 after construction.
\<close>

definition example_mismatch :: "(nat, string, string) mux_state" where
  "example_mismatch =
     (let request_list = dd_get (fst (multiplex example_tasks)) ''loglikelihood''
      in ([(''loglikelihood'', take 2 request_list @ (request_list ! 2)\<lparr>doc_id := 0\<rparr> # drop 3 request_list)],
          snd (multiplex example_tasks)))"

section \<open>Facts about the dictionaries\<close>

lemma dd_get_Nil [simp]: "dd_get [] k = []"
  by (simp add: dd_get_def)

lemma dd_get_dd_append:
  "dd_get (dd_append d k v) k' = (if k' = k then dd_get d k @ [v] else dd_get d k')"
  by (simp add: dd_get_def dd_append_def update_conv')


section \<open>The multiplexer in closed form\<close>

lemma foldl_concat_map: "foldl f s (concat (map g xs)) = foldl (\<lambda>s x. foldl f s (g x)) s xs"
  by (induction xs arbitrary: s) simp_all

lemma foldl_map': "foldl f s (map g xs) = foldl (\<lambda>s x. f s (g x)) s xs"
  by (induction xs arbitrary: s) simp_all

lemma multiplex_doc_events:
  "multiplex_doc key = (\<lambda>st idoc. foldl multiplex_event st (doc_events key idoc))"
  by (intro ext) (auto simp add: multiplex_doc_def doc_events_def foldl_map' multiplex_event_def)

lemma multiplex_task_events:
  "multiplex_task = (\<lambda>st task. foldl multiplex_event st (task_events task))"
  by (intro ext) (auto simp add: multiplex_task_def task_events_def foldl_concat_map multiplex_doc_events)

lemma multiplex_events: "multiplex tasks = foldl multiplex_event ([], []) (events tasks)"
  by (simp add: multiplex_def events_def foldl_concat_map multiplex_task_events)

lemma enumerate_snoc: "enumerate n (xs @ [x]) = enumerate n xs @ [(n + length xs, x)]"
  by (induction xs arbitrary: n) simp_all

lemma multiplex_closed:
  "dd_get (snd (foldl multiplex_event ([], []) evs)) rt = map ev_origin (filter (\<lambda>e. ev_type e = rt) evs)
   \<and> dd_get (fst (foldl multiplex_event ([], []) evs)) rt
       = map ev_request (enumerate 0 (filter (\<lambda>e. ev_type e = rt) evs))"
proof (induction evs arbitrary: rt rule: rev_induct)
  case Nil
  show ?case by simp
next
  case (snoc ev evs)
  obtain key d did info i req where ev: "ev = (key, d, did, info, i, req)"
    by (cases ev) auto
  obtain rs os where st: "foldl multiplex_event ([], []) evs = (rs, os)"
    by (cases "foldl multiplex_event ([], []) evs") auto
  from snoc st have os: "\<And>rt. dd_get os rt = map ev_origin (filter (\<lambda>e. ev_type e = rt) evs)"
    and rs: "\<And>rt. dd_get rs rt = map ev_request (enumerate 0 (filter (\<lambda>e. ev_type e = rt) evs))"
    by simp_all
  have step: "foldl multiplex_event ([], []) (evs @ [ev]) = multiplex_event (rs, os) ev"
    by (simp add: st)
  have body: "multiplex_event (rs, os) ev =
      (dd_append rs (request_type req) (ev_request (length (dd_get os (request_type req)), ev)),
       dd_append os (request_type req) (ev_origin ev))"
    by (simp add: ev multiplex_event_def multiplex_req_def Let_def ev_origin_def ev_request_def)
  have ty: "ev_type ev = request_type req"
    by (simp add: ev ev_type_def)
  show ?case
    unfolding step body
    by (simp add: os rs dd_get_dd_append ty enumerate_snoc)
qed

section \<open>Deduplication and sorting of a bucket\<close>

lemma foldl_dedup_step:
  "foldl dedup_step (S, acc) xs = (S \<union> entry_uid ` set xs, acc @ first_seen S xs)"
  by (induction xs arbitrary: S acc) (auto simp add: dedup_step_def)

lemma dedup_first_seen: "dedup xs = first_seen {} xs"
  by (simp add: dedup_def foldl_dedup_step)

lemma first_seen_append:
  "first_seen S (xs @ ys) = first_seen S xs @ first_seen (S \<union> entry_uid ` set xs) ys"
  by (induction xs arbitrary: S) (auto simp add: insert_absorb)

lemma first_seen_uids: "entry_uid ` set (first_seen S xs) = entry_uid ` set xs - S"
  by (induction xs arbitrary: S) auto

lemma first_seen_subset: "set (first_seen S xs) \<subseteq> set xs"
  by (induction xs arbitrary: S) auto

lemma first_seen_distinct: "distinct (map entry_uid (first_seen S xs))"
proof (induction xs arbitrary: S)
  case Nil
  show ?case by simp
next
  case (Cons x xs)
  have "entry_uid x \<notin> entry_uid ` set (first_seen (insert (entry_uid x) S) xs)"
    by (simp add: first_seen_uids)
  with Cons show ?case by simp
qed

lemma first_seen_filter:
  "filter (\<lambda>x. entry_uid x = u) (first_seen S xs) =
     (if u \<in> S then [] else case find (\<lambda>x. entry_uid x = u) xs of None \<Rightarrow> [] | Some x \<Rightarrow> [x])"
proof (induction xs arbitrary: S)
  case Nil
  show ?case by simp
next
  case (Cons x xs)
  show ?case
    by (simp add: Cons)
qed

lemma first_seen_id:
  "distinct (map entry_uid xs) \<Longrightarrow> entry_uid ` set xs \<inter> S = {} \<Longrightarrow> first_seen S xs = xs"
  by (induction xs arbitrary: S) auto

lemma dedup_duplicate:
  "dedup (xs @ e # ys @ e # zs) = dedup (xs @ e # ys @ zs)"
proof -
  have "first_seen S (e # ys @ e # zs) = first_seen S (e # ys @ zs)" for S :: "nat set"
    by (simp add: first_seen_append)
  then show ?thesis
    by (simp add: dedup_first_seen first_seen_append[of _ xs] del: first_seen.simps)
qed

lemma set_first_seen_inj:
  assumes "inj_on entry_uid (set xs)"
  shows "set (first_seen S xs) = {x \<in> set xs. entry_uid x \<notin> S}"
  using assms
proof (induction xs arbitrary: S)
  case Nil
  show ?case by simp
next
  case (Cons x xs)
  then have inj: "inj_on entry_uid (set xs)" by (simp add: inj_on_def)
  have eq: "\<And>y. y \<in> set xs \<Longrightarrow> entry_uid y = entry_uid x \<Longrightarrow> y = x"
    using Cons.prems by (auto simp add: inj_on_def)
  show ?case
    using eq by (auto simp add: Cons.IH[OF inj])
qed

lemma bundle_set:
  assumes "set ys = set xs" and "inj_on fst (set xs)" and "inj_on entry_uid (set xs)"
  shows "sorted_bucket ys = sorted_bucket xs"
proof -
  have sx: "set (dedup xs) = set xs" and sy: "set (dedup ys) = set xs"
    using assms by (simp_all add: dedup_first_seen set_first_seen_inj)
  have dx: "distinct (dedup xs)" and dy: "distinct (dedup ys)"
    using first_seen_distinct[of "{}" xs] first_seen_distinct[of "{}" ys]
    by (simp_all add: dedup_first_seen distinct_map)
  have "mset (dedup ys) = mset (dedup xs)"
    using sx sy dx dy by (simp add: set_eq_iff_mset_eq_distinct[symmetric])
  then have "mset (dedup ys) = mset (sort_key fst (dedup xs))" by simp
  moreover have "inj_on fst (set (dedup ys))" using assms(2) sy by simp
  moreover have "sorted (map fst (sort_key fst (dedup xs)))" by simp
  ultimately show ?thesis
    unfolding sorted_bucket_def by (rule sort_key_inj_key_eq)
qed


section \<open>Loops that can raise, batches, local execution\<close>

lemma foldM_append:
  "foldM f s (xs @ ys) = (case foldM f s xs of Inl e \<Rightarrow> Inl e | Inr s' \<Rightarrow> foldM f s' ys)"
  by (induction xs arbitrary: s) (auto split: sum.splits)

lemma foldM_concat:
  "foldM f s (concat xss) = foldM (\<lambda>s xs. foldM f s xs) s xss"
  by (induction xss arbitrary: s) (auto simp add: foldM_append split: sum.splits)

lemma foldM_cong:
  "(\<And>s x. x \<in> set xs \<Longrightarrow> f s x = g s x) \<Longrightarrow> foldM f s xs = foldM g s xs"
  by (induction xs arbitrary: s) (auto split: sum.splits)

lemma foldM_fails:
  assumes "x \<in> set xs" and "\<And>s. isl (f s x)"
  shows "isl (foldM f s xs)"
  using assms(1)
proof (induction xs arbitrary: s)
  case Nil
  then show ?case by simp
next
  case (Cons a xs)
  show ?case
  proof (cases "f s a")
    case (Inl e)
    then show ?thesis by simp
  next
    case (Inr s')
    with assms(2)[of s] have "x \<noteq> a" by auto
    with Cons.prems have "x \<in> set xs" by simp
    then show ?thesis by (simp add: Inr Cons.IH)
  qed
qed

lemma concat_DataLoader: "0 < B \<Longrightarrow> concat (DataLoader B xs) = xs"
proof (induction B xs rule: DataLoader.induct)
  case (1 B xs)
  then show ?case by (cases "xs = []") (simp_all add: DataLoader.simps[of B xs] DataLoader.simps[of B "[]"])
qed

lemma DataLoader_Nil_iff: "DataLoader B xs = [] \<longleftrightarrow> B = 0 \<or> xs = []"
  by (simp add: DataLoader.simps[of B xs])

lemma DataLoader_nonempty: "b \<in> set (DataLoader B xs) \<Longrightarrow> b \<noteq> []"
proof (induction B xs rule: DataLoader.induct)
  case (1 B xs)
  then show ?case
    by (cases "B = 0 \<or> xs = []") (auto simp add: DataLoader.simps[of B xs])
qed

lemma zip_star_pair:
  "zip_star [map g xs, map h xs] = map (\<lambda>x. [g x, h x]) xs"
proof -
  have "zip_star [map g xs, map h xs] = map (\<lambda>j. [map g xs ! j, map h xs ! j]) [0..<length xs]"
    by (simp add: zip_star_def)
  also have "\<dots> = map (\<lambda>x. [g x, h x]) xs"
    by (rule nth_equalityI) simp_all
  finally show ?thesis .
qed

lemma zip_map3: "zip (map f xs) (zip (map g xs) (map h xs)) = map (\<lambda>x. (f x, g x, h x)) xs"
  by (induction xs) simp_all

lemma exec_batch_local:
  assumes "model rt = Some f"
  shows "exec_batch model False rt n N ol (seen, q) (step, batch)
           = (case foldM (route ol) q (map (triple f) batch) of Inl e \<Rightarrow> Inl e | Inr q1 \<Rightarrow> Inr (seen, q1))"
  by (simp add: exec_batch_def assms Let_def zip_star_pair zip_map3 triple_def)

lemma foldM_exec_batch_local:
  assumes "model rt = Some f"
  shows "foldM (exec_batch model False rt n N ol) (seen, q) sbs
           = (case foldM (route ol) q (map (triple f) (concat (map snd sbs))) of
                Inl e \<Rightarrow> Inl e | Inr q1 \<Rightarrow> Inr (seen, q1))"
proof (induction sbs arbitrary: q)
  case Nil
  show ?case by simp
next
  case (Cons sb sbs)
  obtain step batch where sb: "sb = (step, batch)" by (cases sb) auto
  show ?case
    by (simp add: sb exec_batch_local[where model=model and rt=rt and f=f, OF assms] foldM_append Cons split: sum.splits)
qed

lemma exec_type_local:
  assumes "model rt = Some f" and "0 < B" and "W \<le> 1"
  shows "exec_type model pad W B os q (rt, reqs) = foldM (route (dd_get os rt)) q (map (triple f) reqs)"
proof -
  show ?thesis
    using assms(3)
    by (simp add: exec_type_def prepare_data_loader_def foldM_exec_batch_local[where model=model and rt=rt and f=f, OF assms(1)]
        concat_DataLoader[OF assms(2)] split: sum.splits)
qed

lemma exec_type_unregistered:
  assumes "model rt = None" and "0 < B" and "reqs \<noteq> []" and "W \<le> 1"
  shows "exec_type model pad W B os q (rt, reqs) = Inl (AttributeError rt)"
proof -
  have w: "\<not> 1 < W" using assms(4) by simp
  obtain b bs where l: "DataLoader B reqs = b # bs"
    using assms(2,3) DataLoader_Nil_iff[of B reqs] by (cases "DataLoader B reqs") auto
  show ?thesis
    using assms(4)
    by (simp add: exec_type_def prepare_data_loader_def l exec_batch_def assms(1))
qed


section \<open>Alignment of requests and origin records\<close>

lemma multiplex_aligned:
  "length (dd_get (fst (multiplex tasks)) rt) = length (dd_get (snd (multiplex tasks)) rt)"
  by (simp add: multiplex_events multiplex_closed)

lemma multiplex_nth:
  assumes "j < length (dd_get (fst (multiplex tasks)) rt)"
  shows "dd_get (fst (multiplex tasks)) rt ! j = ev_request (j, filter (\<lambda>e. ev_type e = rt) (events tasks) ! j)"
    and "dd_get (snd (multiplex tasks)) rt ! j = ev_origin (filter (\<lambda>e. ev_type e = rt) (events tasks) ! j)"
    and "ev_type (filter (\<lambda>e. ev_type e = rt) (events tasks) ! j) = rt"
proof -
  let ?E = "filter (\<lambda>e. ev_type e = rt) (events tasks)"
  from assms have j: "j < length ?E"
    by (simp add: multiplex_events multiplex_closed)
  show "dd_get (fst (multiplex tasks)) rt ! j = ev_request (j, ?E ! j)"
    using j by (simp add: multiplex_events multiplex_closed nth_enumerate_eq)
  show "dd_get (snd (multiplex tasks)) rt ! j = ev_origin (?E ! j)"
    using j by (simp add: multiplex_events multiplex_closed)
  have "?E ! j \<in> set ?E" using j by (rule nth_mem)
  then show "ev_type (?E ! j) = rt" by simp
qed

lemma ev_request_fields:
  "unique_request_id (ev_request (j, e)) = j"
  "request_type (ev_request (j, e)) = ev_type e"
  "doc_id (ev_request (j, e)) = origin_doc_id (ev_origin e)"
  "index (ev_request (j, e)) = request_return_index (ev_origin e)"
  by (cases e; simp add: ev_request_def ev_type_def ev_origin_def)+


lemma set_dedup: "set (dedup xs) \<subseteq> set xs"
  by (simp add: dedup_first_seen first_seen_subset)

lemma dedup_Nil_iff: "dedup xs = [] \<longleftrightarrow> xs = []"
  by (cases xs) (simp_all add: dedup_first_seen)

lemma bucket_order_free:
  assumes "set arrived = set per_doc_requests" and "inj_on fst (set per_doc_requests)"
    and "inj_on entry_uid (set per_doc_requests)"
  shows "per_doc_results arrived = per_doc_results per_doc_requests"
    and "fewshot_logging_info arrived = fewshot_logging_info per_doc_requests"
proof -
  have "sorted_bucket arrived = sorted_bucket per_doc_requests"
    using assms by (rule bundle_set)
  then show "per_doc_results arrived = per_doc_results per_doc_requests"
    and "fewshot_logging_info arrived = fewshot_logging_info per_doc_requests"
    by (simp_all add: per_doc_results_def fewshot_logging_info_def)
qed

lemma bucket_metadata:
  assumes "per_doc_requests \<noteq> []"
  shows "fewshot_logging_info per_doc_requests
          = Inr (fst (snd (snd (hd (sorted_bucket per_doc_requests)))))"
proof -
  have "dedup per_doc_requests \<noteq> []"
    using assms by (simp add: dedup_Nil_iff)
  then have "length (sorted_bucket per_doc_requests) \<noteq> 0"
    by (simp add: sorted_bucket_def)
  then show ?thesis
    by (cases "sorted_bucket per_doc_requests") (simp_all add: fewshot_logging_info_def)
qed

lemma bucket_scrambled:
  "per_doc_results [(2, r2, m2, 7), (0, r0, m0, 5), (1, r1, m1, 6)] = [r0, r1, r2]"
  by (simp add: per_doc_results_def sorted_bucket_def dedup_def dedup_step_def)


section \<open>Routing and the doc-id assertion\<close>

lemma route_mismatch:
  "uid < length origin_list \<Longrightarrow> did \<noteq> origin_doc_id (origin_list ! uid)
     \<Longrightarrow> route origin_list queue (uid, did, response) = Inl AssertionError"
  by (simp add: route_def)

lemma route_no_assertion:
  "(fst t < length origin_list \<Longrightarrow> fst (snd t) = origin_doc_id (origin_list ! fst t))
     \<Longrightarrow> route origin_list queue t \<noteq> Inl AssertionError"
  by (cases t) (auto simp add: route_def Let_def unwrap_def py_getitem_def split: sum.splits option.splits)

lemma foldM_never:
  "(\<And>s x. x \<in> set xs \<Longrightarrow> f s x \<noteq> Inl e) \<Longrightarrow> foldM f s xs \<noteq> Inl e"
  by (induction xs arbitrary: s) (auto split: sum.splits)

lemma foldM_abort:
  "foldM f s xs = Inr s1 \<Longrightarrow> f s1 x = Inl e \<Longrightarrow> foldM f s (xs @ x # ys) = Inl e"
  by (simp add: foldM_append)

section \<open>Request types without a backend capability\<close>

lemma distinct_dd_append: "distinct (map fst d) \<Longrightarrow> distinct (map fst (dd_append d k v))"
  by (simp add: dd_append_def distinct_update)

lemma multiplex_event_distinct:
  "distinct (map fst (fst st)) \<Longrightarrow> distinct (map fst (fst (multiplex_event st ev)))"
  by (cases st; cases ev) (simp add: multiplex_event_def multiplex_req_def Let_def distinct_dd_append)

lemma foldl_multiplex_event_distinct:
  "distinct (map fst (fst st)) \<Longrightarrow> distinct (map fst (fst (foldl multiplex_event st evs)))"
  by (induction evs arbitrary: st) (simp_all add: multiplex_event_distinct)

lemma multiplex_distinct: "distinct (map fst (fst (multiplex tasks)))"
  by (simp add: multiplex_events foldl_multiplex_event_distinct)

lemma dd_get_item: "distinct (map fst d) \<Longrightarrow> (k, vs) \<in> set d \<Longrightarrow> dd_get d k = vs"
  by (simp add: dd_get_def)

lemma dd_get_in: "dd_get d k \<noteq> [] \<Longrightarrow> (k, dd_get d k) \<in> set d"
  by (auto simp add: dd_get_def split: option.splits dest: map_of_SomeD)

lemma in_events:
  assumes "(key, docs) \<in> set tasks" and "(d, info, reqs) \<in> set docs" and "req \<in> set reqs"
  shows "\<exists>did i. (key, d, did, info, i, req) \<in> set (events tasks)"
proof -
  from assms(2) obtain did where did: "did < length docs" "docs ! did = (d, info, reqs)"
    by (auto simp add: in_set_conv_nth)
  from assms(3) obtain i where i: "i < length reqs" "reqs ! i = req"
    by (auto simp add: in_set_conv_nth)
  have 1: "(did, d, info, reqs) \<in> set (enumerate 0 docs)"
    using did by (simp add: in_set_enumerate_eq)
  have 2: "(i, req) \<in> set (enumerate 0 reqs)"
    using i by (simp add: in_set_enumerate_eq)
  have "(key, d, did, info, i, req) \<in> set (doc_events key (did, d, info, reqs))"
    using 2 by (auto simp add: doc_events_def)
  then have "(key, d, did, info, i, req) \<in> set (task_events (key, docs))"
    using 1 by (auto simp add: task_events_def)
  then have "(key, d, did, info, i, req) \<in> set (events tasks)"
    using assms(1) by (auto simp add: events_def)
  then show ?thesis by blast
qed

lemma grouped_nonempty:
  assumes "(key, docs) \<in> set tasks" and "(d, info, reqs) \<in> set docs" and "req \<in> set reqs"
  shows "dd_get (fst (multiplex tasks)) (request_type req) \<noteq> []"
proof -
  from in_events[OF assms] obtain did i where
    e: "(key, d, did, info, i, req) \<in> set (events tasks)" by blast
  have "ev_type (key, d, did, info, i, req) = request_type req"
    by (simp add: ev_type_def)
  with e have "filter (\<lambda>e. ev_type e = request_type req) (events tasks) \<noteq> []"
    by (auto simp add: filter_empty_conv)
  then have "length (dd_get (fst (multiplex tasks)) (request_type req)) \<noteq> 0"
    by (simp add: multiplex_events multiplex_closed)
  then show ?thesis by auto
qed

lemma even_batches_nonempty: "xs \<noteq> [] \<Longrightarrow> even_batches pad G xs \<noteq> []"
  by (simp add: even_batches_def)

lemma prepare_data_loader_nonempty:
  "0 < B \<Longrightarrow> xs \<noteq> [] \<Longrightarrow> prepare_data_loader pad W B xs \<noteq> []"
  by (auto simp add: prepare_data_loader_def DataLoader_Nil_iff even_batches_nonempty)

lemma exec_type_no_capability:
  assumes "model rt = None" and "0 < B" and "reqs \<noteq> []"
  shows "exec_type model pad W B os q (rt, reqs) = Inl (AttributeError rt)"
proof -
  obtain b bs where l: "prepare_data_loader pad W B reqs = b # bs"
    using prepare_data_loader_nonempty[OF assms(2,3), of pad W]
    by (cases "prepare_data_loader pad W B reqs") auto
  show ?thesis
    by (simp add: exec_type_def l exec_batch_def assms(1))
qed

lemma execute_no_capability:
  assumes "dd_get (fst st) rt \<noteq> []" and "model rt = None"
  shows "isl (execute model pad W B st)"
proof (cases "B = 0")
  case True
  from assms(1) have "fst st \<noteq> []" by (auto simp add: dd_get_def)
  then show ?thesis using True by (cases st) (simp add: execute_def)
next
  case False
  then have B: "0 < B" by simp
  obtain rs os where st: "st = (rs, os)" by (cases st) auto
  have m: "(rt, dd_get rs rt) \<in> set rs" using assms(1) by (simp add: st dd_get_in)
  have nonempty: "dd_get rs rt \<noteq> []" using assms(1) by (simp add: st)
  have "exec_type model pad W B os q (rt, dd_get rs rt) = Inl (AttributeError rt)" for q
    by (intro exec_type_no_capability assms(2) B nonempty)
  then have "isl (exec_type model pad W B os q (rt, dd_get rs rt))" for q
    by simp
  with m have "isl (foldM (exec_type model pad W B os) [] rs)"
    by (rule foldM_fails)
  then show ?thesis using False by (simp add: st execute_def)
qed

section \<open>The aggregation step\<close>

lemma table_lookup_set_item:
  "table_lookup (set_item results key k v) key' k'
     = (if key' = key \<and> k' = k then Some v else table_lookup results key' k')"
  by (auto simp add: table_lookup_def set_item_def update_conv' split: option.splits)

lemma map_of_foldl_update:
  "map_of (foldl (\<lambda>d kv. AList.update (fst kv) (snd kv) d) d0 kvs) k
     = (case map_of (rev kvs) k of None \<Rightarrow> map_of d0 k | Some v \<Rightarrow> Some v)"
  by (induction kvs arbitrary: d0) (auto simp add: update_conv' map_add_def split: option.splits)

lemma map_of_dict_of: "map_of (dict_of kvs) k = map_of (rev kvs) k"
  by (simp add: dict_of_def map_of_foldl_update split: option.splits)

lemma stderr_name_neq [simp]:
  "metric @ ''_stderr'' \<noteq> ''task_name''" "metric @ ''_stderr'' \<noteq> ''prompt_name''"
proof -
  show "metric @ ''_stderr'' \<noteq> ''task_name''"
  proof
    assume "metric @ ''_stderr'' = ''task_name''"
    then have "last (metric @ ''_stderr'') = last ''task_name''" by (rule arg_cong)
    then show False by simp
  qed
  show "metric @ ''_stderr'' \<noteq> ''prompt_name''"
  proof
    assume "metric @ ''_stderr'' = ''prompt_name''"
    then have "last (metric @ ''_stderr'') = last ''prompt_name''" by (rule arg_cong)
    then show False by simp
  qed
qed

lemma map_of_map_Logged:
  "k \<notin> fst ` set logging \<Longrightarrow> map_of (map (\<lambda>kl. (fst kl, Logged (snd kl))) logging) k = None"
  by (induction logging) auto


lemma base_record_stderr:
  "metric @ ''_stderr'' \<notin> fst ` set logging
     \<Longrightarrow> map_of (base_record names metric v logging) (metric @ ''_stderr'') = None"
  by (simp add: base_record_def map_of_dict_of map_add_def rev_map map_of_map_Logged)


lemma not_isl_Inr: "\<not> isl x \<Longrightarrow> \<exists>y. x = Inr y"
  by (cases x) auto

lemmas example_step_defs = example_step_def aggregate_step_def example_split_def example_aggregation_def
      example_logging_def example_spread_def example_resample_def example_mean_def stderr_iters_def
      set_item_def dict_of_def Let_def




section \<open>The executor as a stream of routed entries\<close>

lemma route_Inr:
  assumes "route ol q t = Inr q'"
  shows "q' = dd_append q (fst (kv_of ol t)) (snd (kv_of ol t))"
    and "fst t < length ol" and "fst (snd t) = origin_doc_id (ol ! fst t)"
  using assms
  by (cases t; auto simp add: route_def kv_of_def Let_def split: if_splits sum.splits)+

lemma foldM_route_Inr:
  assumes "foldM (route ol) q ts = Inr q'"
  shows "q' = foldl (\<lambda>q kv. dd_append q (fst kv) (snd kv)) q (map (kv_of ol) ts)
         \<and> (\<forall>t \<in> set ts. fst t < length ol \<and> fst (snd t) = origin_doc_id (ol ! fst t))"
  using assms
proof (induction ts arbitrary: q)
  case Nil
  then show ?case by simp
next
  case (Cons t ts)
  from Cons.prems obtain q1 where r: "route ol q t = Inr q1" and rest: "foldM (route ol) q1 ts = Inr q'"
    by (auto split: sum.splits)
  from route_Inr[OF r] Cons.IH[OF rest] show ?case by simp
qed

lemma exec_batch_stream:
  assumes "model rt = Some f"
  shows "exec_batch model distributed rt n N ol (seen, q) (step, batch)
           = (case foldM (route ol) q (batch_stream f distributed n N seen step batch) of
                Inl e \<Rightarrow> Inl e
              | Inr q1 \<Rightarrow> Inr (seen_after distributed n step seen, q1))"
proof (cases "distributed \<and> step \<noteq> n - 1")
  case True
  then show ?thesis
    by (simp add: exec_batch_def assms batch_stream_def Let_def seen_after_def split: sum.splits)
next
  case False
  then show ?thesis
    by (cases distributed)
      (simp_all add: exec_batch_def assms batch_stream_def Let_def seen_after_def split: sum.splits)
qed

lemma type_stream_Cons:
  "type_stream f distributed n N seen ((step, batch) # sbs)
     = batch_stream f distributed n N seen step batch
       @ type_stream f distributed n N (seen_after distributed n step seen) sbs"
  by (simp add: seen_after_def)

lemma foldM_exec_batch_stream:
  assumes "model rt = Some f"
  shows "(case foldM (exec_batch model distributed rt n N ol) (seen, q) sbs of
            Inl e \<Rightarrow> Inl e | Inr sq \<Rightarrow> Inr (snd sq))
           = foldM (route ol) q (type_stream f distributed n N seen sbs)"
proof (induction sbs arbitrary: seen q)
  case Nil
  show ?case by simp
next
  case (Cons sb sbs)
  obtain step batch where sb: "sb = (step, batch)" by (cases sb) auto
  note eb = exec_batch_stream[where model = model and rt = rt and f = f, OF assms]
  show ?case
  proof (cases "foldM (route ol) q (batch_stream f distributed n N seen step batch)")
    case (Inl e)
    then show ?thesis
      unfolding sb type_stream_Cons by (simp add: eb foldM_append)
  next
    case (Inr q1)
    then show ?thesis
      unfolding sb type_stream_Cons by (simp add: eb foldM_append Cons)
  qed
qed

lemma exec_type_stream:
  assumes "exec_type model pad W B os q tr = Inr q'"
  shows "foldM (route (dd_get os (fst tr))) q (stream_of model pad W B tr) = Inr q'"
proof -
  obtain rt reqs where tr: "tr = (rt, reqs)" by (cases tr) auto
  let ?l = "prepare_data_loader pad W B reqs"
  let ?e = "foldM (exec_batch model (1 < W) rt (length ?l) (length reqs) (dd_get os rt)) (0, q) (enumerate 0 ?l)"
  from assms have e: "(case ?e of Inl e \<Rightarrow> Inl e | Inr sq \<Rightarrow> Inr (snd sq)) = Inr q'"
    by (auto simp add: tr exec_type_def Let_def split: sum.splits)
  show ?thesis
  proof (cases "model rt")
    case None
    have "?l = []"
    proof (rule ccontr)
      assume "?l \<noteq> []"
      then obtain b bs where "?l = b # bs" by (cases ?l) auto
      then have "?e = Inl (AttributeError rt)"
        by (simp add: exec_batch_def None)
      with e show False by simp
    qed
    with e show ?thesis by (simp add: tr stream_of_def)
  next
    case (Some f)
    from e show ?thesis
      unfolding foldM_exec_batch_stream[where model = model and rt = rt and f = f, OF Some]
      by (simp add: tr stream_of_def Some)
  qed
qed

lemma foldM_exec_type_Inr:
  assumes "foldM (exec_type model pad W B os) q trs = Inr q'"
  shows "q' = foldl (\<lambda>q kv. dd_append q (fst kv) (snd kv)) q (concat (map (routed model pad W B os) trs))
         \<and> (\<forall>tr \<in> set trs. \<forall>t \<in> set (stream_of model pad W B tr).
               fst t < length (dd_get os (fst tr))
               \<and> fst (snd t) = origin_doc_id (dd_get os (fst tr) ! fst t))"
  using assms
proof (induction trs arbitrary: q)
  case Nil
  then show ?case by simp
next
  case (Cons tr trs)
  from Cons.prems obtain q1 where
    r: "exec_type model pad W B os q tr = Inr q1" and rest: "foldM (exec_type model pad W B os) q1 trs = Inr q'"
    by (auto split: sum.splits)
  from foldM_route_Inr[OF exec_type_stream[OF r]] Cons.IH[OF rest]
  show ?case by (simp add: routed_def)
qed

lemma id2_triple: "map id2 (map (triple f) batch) = map ids batch"
  by (simp add: id2_def triple_def ids_def)

lemma batch_stream_plain:
  assumes "\<not> (distributed \<and> step = n - 1)"
  shows "batch_stream f distributed n N seen step batch = map (triple f) batch"
  using assms by (auto simp add: batch_stream_def Let_def zip_star_pair zip_map3 triple_def)

lemma batch_stream_last_all:
  assumes "2 \<le> int N - int seen"
  shows "batch_stream f True n N seen (n - 1) batch = map (triple f) batch"
  using assms by (simp add: batch_stream_def Let_def py_slice_to_def zip_star_pair zip_map3 triple_def)

lemma batch_stream_last_one:
  assumes "int N - int seen = 1"
  shows "map id2 (batch_stream f True n N seen (n - 1) batch) = map ids (take 1 batch)"
  using assms
  by (cases batch) (simp_all add: batch_stream_def Let_def py_slice_to_def id2_def ids_def)

lemma type_stream_append:
  assumes "\<forall>sb \<in> set sbs. fst sb \<noteq> n - 1"
  shows "type_stream f d n N seen (sbs @ rest)
           = map (triple f) (concat (map snd sbs))
             @ type_stream f d n N (if d then seen + 2 * length sbs else seen) rest"
  using assms
proof (induction sbs arbitrary: seen)
  case Nil
  show ?case by simp
next
  case (Cons sb sbs)
  obtain step batch where sb: "sb = (step, batch)" by (cases sb) auto
  from Cons.prems have step: "step \<noteq> n - 1" and rest: "\<forall>sb \<in> set sbs. fst sb \<noteq> n - 1"
    by (simp_all add: sb)
  have b: "batch_stream f d' n N seen step batch = map (triple f) batch" for d'
    using step by (intro batch_stream_plain) simp
  show ?case
  proof (cases d)
    case True
    have "type_stream f True n N (Suc (Suc seen)) (sbs @ rest)
            = map (triple f) (concat (map snd sbs))
              @ type_stream f True n N (Suc (Suc (seen + 2 * length sbs))) rest"
      using Cons.IH[OF rest, of "Suc (Suc seen)"] True by simp
    then show ?thesis using step by (simp add: sb b True)
  next
    case False
    have "type_stream f False n N seen (sbs @ rest)
            = map (triple f) (concat (map snd sbs)) @ type_stream f False n N seen rest"
      using Cons.IH[OF rest, of seen] False by simp
    then show ?thesis by (simp add: sb b False)
  qed
qed

lemma type_stream_local:
  "type_stream f False n N seen sbs = map (triple f) (concat (map snd sbs))"
  by (induction sbs arbitrary: seen) (simp_all add: batch_stream_plain)

lemma stream_local:
  assumes "\<not> 1 < W" and "0 < B"
  shows "stream_of model pad W B (rt, reqs) = map (triple (the (model rt))) reqs"
  using assms
  by (simp add: stream_of_def prepare_data_loader_def type_stream_local concat_DataLoader)

lemma DataLoader_snoc:
  assumes "0 < G" and "xs \<noteq> []"
  shows "\<exists>bs bl. DataLoader G xs = bs @ [bl] \<and> bl \<noteq> [] \<and> length bl \<le> G
            \<and> (\<forall>b \<in> set bs. length b = G) \<and> concat bs @ bl = xs"
  using assms
proof (induction G xs rule: DataLoader.induct)
  case (1 B xs)
  show ?case
  proof (cases "drop B xs = []")
    case True
    then have "DataLoader B xs = [xs]"
      using 1(2,3) by (simp add: DataLoader.simps[of B xs] DataLoader.simps[of B "[]"])
    moreover have "length xs \<le> B" using True by simp
    ultimately show ?thesis using 1(3) by simp
  next
    case False
    from 1(1)[OF _ 1(2) False] 1(2,3) obtain bs bl where
      l: "DataLoader B (drop B xs) = bs @ [bl]" and bl: "bl \<noteq> []" "length bl \<le> B"
      and bs: "\<forall>b \<in> set bs. length b = B" and c: "concat bs @ bl = drop B xs"
      by auto
    have d: "DataLoader B xs = (take B xs # bs) @ [bl]"
      using 1(2,3) l by (simp add: DataLoader.simps[of B xs])
    have t: "length (take B xs) = B" using False by simp
    have "concat (take B xs # bs) @ bl = xs" using c by simp
    with d bl bs t show ?thesis by (intro exI[of _ "take B xs # bs"] exI[of _ bl]) simp
  qed
qed

lemma length_concat_uniform: "\<forall>b \<in> set bs. length b = G \<Longrightarrow> length (concat bs) = G * length bs"
  by (induction bs) simp_all

section \<open>Padded batches\<close>

lemma pad_count_mod:
  fixes G N :: nat
  assumes "0 < G"
  shows "(N + (G - N mod G) mod G) mod G = 0" and "(G - N mod G) mod G < G"
proof -
  show "(G - N mod G) mod G < G" by (rule mod_less_divisor[OF assms])
  show "(N + (G - N mod G) mod G) mod G = 0"
  proof (cases "N mod G = 0")
    case True
    then show ?thesis by simp
  next
    case False
    have lt: "N mod G < G" using assms by simp
    then have "(G - N mod G) mod G = G - N mod G" using False by simp
    moreover have "(N + (G - N mod G)) mod G = (N mod G + (G - N mod G)) mod G"
      by (simp add: mod_add_left_eq)
    moreover have "N mod G + (G - N mod G) = G" using lt by simp
    ultimately show ?thesis by simp
  qed
qed

lemma stream_distributed_ids:
  assumes W: "1 < W" and B: "0 < B"
    and pad_len: "\<forall>xs p. xs \<noteq> [] \<longrightarrow> length (pad xs p) = p" and pad_set: "\<forall>xs p. set (pad xs p) \<subseteq> set xs"
  shows "\<exists>extra. map id2 (stream_of model pad W B (rt, reqs)) = map ids (reqs @ extra)
            \<and> set extra \<subseteq> set reqs"
proof (cases "reqs = []")
  case True
  have "set (pad [] ((B * W - 0) mod (B * W))) \<subseteq> set []"
    using pad_set by blast
  then have "pad [] ((B * W - 0) mod (B * W)) = []"
    by simp
  then have "even_batches pad (B * W) reqs = []"
    by (simp add: True even_batches_def)
  then have "stream_of model pad W B (rt, reqs) = []"
    using W by (simp add: stream_of_def prepare_data_loader_def DataLoader.simps[of _ "[]"])
  then show ?thesis by (simp add: True)
next
  case False
  define G where "G = B * W"
  define N where "N = length reqs"
  define p where "p = (G - N mod G) mod G"
  define xs where "xs = reqs @ pad reqs p"
  define f where "f = the (model rt)"
  have G2: "2 \<le> G" using W B by (cases B; cases W) (auto simp add: G_def)
  then have G0: "0 < G" by simp
  have N0: "0 < N" using False by (simp add: N_def)
  have eb: "even_batches pad G reqs = xs"
    by (simp add: even_batches_def xs_def p_def N_def)
  have lenxs: "length xs = N + p"
    using pad_len False by (simp add: xs_def N_def)
  have xs_ne: "xs \<noteq> []" using False by (simp add: xs_def)
  from DataLoader_snoc[OF G0 xs_ne] obtain bs bl where
    l: "DataLoader G xs = bs @ [bl]" and bl: "bl \<noteq> []" "length bl \<le> G"
    and bs: "\<forall>b \<in> set bs. length b = G" and c: "concat bs @ bl = xs"
    by blast
  define m where "m = length bs"
  have lc: "length (concat bs) = G * m"
    using bs by (simp add: length_concat_uniform m_def)
  have sum: "N + p = G * m + length bl"
    using c lc lenxs by (metis length_append)
  have "(N + p) mod G = 0" and pG: "p < G"
    using pad_count_mod[OF G0, of N] by (simp_all add: p_def)
  then have "length bl mod G = 0" by (simp add: sum)
  then have lbl: "length bl = G"
    using bl by (metis dvd_imp_le le_antisym length_greater_0_conv mod_0_imp_dvd)
  have NGm: "G * m < N" using sum lbl pG by simp
  have m2: "2 * m \<le> G * m" using G2 by simp
  have loader: "prepare_data_loader pad W B reqs = bs @ [bl]"
    using W l by (simp add: prepare_data_loader_def eb G_def[symmetric])
  have en: "enumerate 0 (bs @ [bl]) = enumerate 0 bs @ [(m, bl)]"
    by (simp add: enumerate_snoc m_def)
  have non_last: "\<forall>sb \<in> set (enumerate 0 bs). fst sb \<noteq> Suc m - 1"
    by (auto simp add: in_set_enumerate_eq m_def)
  have st: "stream_of model pad W B (rt, reqs)
              = map (triple f) (concat bs) @ batch_stream f True (Suc m) N (2 * m) m bl"
    using W type_stream_append[OF non_last, of f True N 0 "[(m, bl)]"]
    by (simp add: stream_of_def loader en f_def N_def m_def)
  show ?thesis
  proof (cases "2 \<le> int N - int (2 * m)")
    case True
    have "map id2 (stream_of model pad W B (rt, reqs)) = map ids (concat bs @ bl)"
      by (simp add: st batch_stream_last_all[where n = "Suc m", simplified, OF True] id2_triple del: map_map)
    also have "\<dots> = map ids (reqs @ pad reqs p)" by (simp only: c xs_def)
    finally show ?thesis using pad_set by blast
  next
    case False
    then have k1: "int N - int (2 * m) = 1" using NGm m2 by linarith
    then have Gm: "G * m = N - 1" and N1: "N = Suc (G * m)" using NGm m2 by linarith+
    have "take N xs = concat bs @ take 1 bl"
      using c lc N1 by (metis One_nat_def Suc_eq_plus1 add_diff_cancel_left' le_add1 take_all take_append)
    moreover have "take N xs = reqs" by (simp add: xs_def N_def)
    ultimately have r: "concat bs @ take 1 bl = reqs" by simp
    have "map id2 (stream_of model pad W B (rt, reqs)) = map ids (concat bs @ take 1 bl)"
      by (simp add: st batch_stream_last_one[where n = "Suc m", simplified, OF k1] id2_triple del: map_map)
    then have "map id2 (stream_of model pad W B (rt, reqs)) = map ids (reqs @ [])"
      by (simp only: r append_Nil2)
    then show ?thesis by (intro exI[of _ "[]"]) simp
  qed
qed

section \<open>Buckets as filters of the routed stream\<close>

lemma dd_get_foldl_app:
  "dd_get (foldl app q kvs) b = dd_get q b @ map snd (filter (\<lambda>kv. fst kv = b) kvs)"
  by (induction kvs arbitrary: q) (simp_all add: dd_get_dd_append)

lemma distinct_foldl_app:
  "distinct (map fst q) \<Longrightarrow> distinct (map fst (foldl app q kvs))"
  by (induction kvs arbitrary: q) (simp_all add: distinct_dd_append)

lemma keys_dd_append: "fst ` set (dd_append q k v) = insert k (fst ` set q)"
  by (simp add: dd_append_def dom_update)

lemma keys_foldl_app: "fst ` set (foldl app q kvs) = fst ` set q \<union> fst ` set kvs"
  by (induction kvs arbitrary: q) (auto simp add: keys_dd_append)

lemma alist_rebuild:
  assumes "distinct (map fst q)"
  shows "q = map (\<lambda>b. (b, dd_get q b)) (map fst q)"
proof -
  have "\<And>kv. kv \<in> set q \<Longrightarrow> (fst kv, dd_get q (fst kv)) = kv"
    using assms by (auto simp add: dd_get_def)
  then have "map (\<lambda>kv. (fst kv, dd_get q (fst kv))) q = map (\<lambda>kv. kv) q"
    by (intro map_cong) simp_all
  then show ?thesis by (simp add: comp_def)
qed

lemma uid_determines:
  assumes "\<forall>x\<in>set xs. \<forall>y\<in>set xs. entry_uid x = entry_uid y \<longrightarrow> g x = g y"
    and "set zs \<subseteq> set xs" and "set ys \<subseteq> set xs"
    and "mset (map entry_uid zs) = mset (map entry_uid ys)"
  shows "mset (map g zs) = mset (map g ys)"
proof -
  define h where "h u = g (SOME x. x \<in> set xs \<and> entry_uid x = u)" for u
  have gh: "g x = h (entry_uid x)" if "x \<in> set xs" for x
  proof -
    define y where "y = (SOME y. y \<in> set xs \<and> entry_uid y = entry_uid x)"
    have "y \<in> set xs \<and> entry_uid y = entry_uid x"
      unfolding y_def using that
      by (intro someI[of "\<lambda>y. y \<in> set xs \<and> entry_uid y = entry_uid x" x]) simp
    with assms(1) that have "g y = g x" by blast
    then show ?thesis by (simp add: h_def y_def)
  qed
  have "map g zs = map h (map entry_uid zs)" and "map g ys = map h (map entry_uid ys)"
    using gh assms(2,3) by (auto simp add: subset_iff)
  then have "mset (map g zs) = image_mset h (mset (map entry_uid zs))"
    and "mset (map g ys) = image_mset h (mset (map entry_uid ys))"
    by (simp_all only: mset_map)
  with assms(4) show ?thesis by simp
qed

lemma dedup_mset:
  assumes "\<forall>x\<in>set xs. \<forall>y\<in>set xs. entry_uid x = entry_uid y \<longrightarrow> g x = g y"
    and "set ys \<subseteq> set xs" and "entry_uid ` set xs \<subseteq> entry_uid ` set ys"
    and "distinct (map entry_uid ys)"
  shows "mset (map g (dedup xs)) = mset (map g ys)"
proof -
  let ?zs = "first_seen {} xs"
  have sub: "set ?zs \<subseteq> set xs" by (rule first_seen_subset)
  have "set (map entry_uid ?zs) = set (map entry_uid ys)"
    using first_seen_uids[of "{}" xs] assms(2,3) by auto
  with set_eq_iff_mset_eq_distinct[OF first_seen_distinct[of "{}" xs] assms(4)]
  have "mset (map entry_uid ?zs) = mset (map entry_uid ys)"
    by blast
  with uid_determines[OF assms(1) sub assms(2)] show ?thesis
    by (simp add: dedup_first_seen)
qed

lemma partition_by_key:
  assumes "distinct ks" and "g ` set xs \<subseteq> set ks"
  shows "(\<Sum>k\<leftarrow>ks. mset (filter (\<lambda>x. g x = k) xs)) = mset xs"
  using assms(2)
proof (induction xs)
  case Nil
  show ?case by (induction ks) simp_all
next
  case (Cons x xs)
  have one: "(\<Sum>k\<leftarrow>ks. if g x = k then {#x#} else {#}) = {#x#}"
    if "distinct ks" "g x \<in> set ks" for ks
    using that
  proof (induction ks)
    case Nil
    then show ?case by simp
  next
    case (Cons k ks)
    have z: "(\<Sum>k\<leftarrow>ks. if g x = k then {#x#} else {#}) = {#}" if "g x \<notin> set ks"
      using that by (induction ks) auto
    show ?case
    proof (cases "g x = k")
      case True
      with Cons.prems have "g x \<notin> set ks" by auto
      with True z show ?thesis by simp
    next
      case False
      with Cons show ?thesis by simp
    qed
  qed
  have "(\<Sum>k\<leftarrow>ks. mset (filter (\<lambda>y. g y = k) (x # xs)))
        = (\<Sum>k\<leftarrow>ks. (if g x = k then {#x#} else {#}) + mset (filter (\<lambda>y. g y = k) xs))"
    by (intro arg_cong[where f = sum_list] map_cong) auto
  also have "\<dots> = (\<Sum>k\<leftarrow>ks. if g x = k then {#x#} else {#}) + (\<Sum>k\<leftarrow>ks. mset (filter (\<lambda>y. g y = k) xs))"
    by (simp add: sum_list_addf)
  also have "\<dots> = {#x#} + mset xs"
  proof -
    have "g x \<in> set ks" and "g ` set xs \<subseteq> set ks" using Cons.prems by simp_all
    then show ?thesis using one[OF assms(1)] Cons.IH by simp
  qed
  finally show ?case by simp
qed

section \<open>Routed entries and construction events\<close>

lemma constructed_events: "constructed tasks = map ev_triple (events tasks)"
proof -
  have d: "map ev_triple (doc_events key idoc)
             = map (\<lambda>ireq. (key, fst idoc, fst ireq)) (enumerate 0 (snd (snd (snd idoc))))" for key idoc
    by (cases idoc) (auto simp add: doc_events_def ev_triple_def)
  have t: "map ev_triple (task_events task)
             = concat (map (\<lambda>idoc. map (\<lambda>ireq. (fst task, fst idoc, fst ireq))
                                      (enumerate 0 (snd (snd (snd idoc))))) (enumerate 0 (snd task)))" for task
    by (cases task) (simp add: task_events_def map_concat d comp_def)
  show ?thesis
    by (simp add: constructed_def events_def map_concat t comp_def)
qed

lemma skel_kv_of:
  "skel (kv_of ol t) = ((task_template_key (ol ! fst t), fst (snd t)), sub_index (ol ! fst t), fst t)"
  by (simp add: skel_def kv_of_def)

lemma skel_request:
  assumes "j < length (filter (\<lambda>e. ev_type e = rt) evs)"
    and "r = ev_request (j, filter (\<lambda>e. ev_type e = rt) evs ! j)"
    and "id2 t = ids r"
  shows "skel (kv_of (map ev_origin (filter (\<lambda>e. ev_type e = rt) evs)) t) = tag_skel evs (rt, j)"
proof -
  obtain key d did info i req where e: "filter (\<lambda>e. ev_type e = rt) evs ! j = (key, d, did, info, i, req)"
    by (cases "filter (\<lambda>e. ev_type e = rt) evs ! j") auto
  have t: "fst t = j" "fst (snd t) = did"
    using assms(2,3) by (simp_all add: id2_def ids_def ev_request_def e)
  show ?thesis
    using assms(1)
    by (simp add: skel_kv_of t tag_skel_def ev_at_def e ev_origin_def ev_bucket_def ev_triple_def)
qed

lemma routed_skel:
  fixes tasks :: "('a, 'd, 'm) task_stream list" and model :: "('a, 'r) LM"
  assumes tr: "tr \<in> set (fst (multiplex tasks))"
    and ids: "map id2 (stream_of model pad W B tr) = map ids (snd tr @ extra)" "set extra \<subseteq> set (snd tr)"
  shows "map skel (take (length (snd tr)) (routed model pad W B (snd (multiplex tasks)) tr :: ((string \<times> nat) \<times> ('r, 'm) entry) list))
           = map (tag_skel (events tasks)) (type_tags tr)"
    and "\<forall>kv \<in> set (routed model pad W B (snd (multiplex tasks)) tr :: ((string \<times> nat) \<times> ('r, 'm) entry) list).
           \<exists>tag \<in> set (type_tags tr). skel kv = tag_skel (events tasks) tag"
proof -
  obtain rt reqs where trp: "tr = (rt, reqs)" by (cases tr) auto
  let ?E = "filter (\<lambda>e. ev_type e = rt) (events tasks)"
  let ?ol = "map ev_origin ?E"
  let ?st = "stream_of model pad W B tr"
  let ?R = "routed model pad W B (snd (multiplex tasks)) tr :: ((string \<times> nat) \<times> ('r, 'm) entry) list"
  have reqs: "reqs = map ev_request (enumerate 0 ?E)"
    using dd_get_item[OF multiplex_distinct tr[unfolded trp]]
    by (simp add: multiplex_events multiplex_closed)
  have ol: "dd_get (snd (multiplex tasks)) rt = ?ol"
    by (simp add: multiplex_events multiplex_closed)
  have N: "length reqs = length ?E" by (simp add: reqs)
  have R: "?R = map (kv_of ?ol) ?st" by (simp add: routed_def trp ol)
  have len: "length ?st = length (reqs @ extra)"
    using ids(1) by (metis length_map trp snd_conv)
  have lenR: "length ?R = length reqs + length extra"
    using len by (simp add: R)
  have sndtr: "snd tr = reqs" by (simp add: trp)
  have ltags: "length (type_tags tr) = length reqs" by (simp add: type_tags_def trp)
  have nth_tags: "type_tags tr ! n = (rt, n)" if "n < length reqs" for n
    using that by (simp add: type_tags_def trp)
  have nthR: "?R ! n = kv_of ?ol (?st ! n)" if "n < length ?st" for n
    using that by (simp add: R)
  have nth_req: "reqs ! j = ev_request (j, ?E ! j)" if "j < length ?E" for j
    using that by (simp add: reqs nth_enumerate_eq)
  have in_reqs: "\<exists>j < length ?E. r = ev_request (j, ?E ! j)" if "r \<in> set reqs" for r
    using that nth_req by (metis N in_set_conv_nth)
  have sk: "\<exists>j < length ?E. (reqs @ extra) ! n = ev_request (j, ?E ! j) \<and> (n < length reqs \<longrightarrow> j = n)"
    if "n < length (reqs @ extra)" for n
  proof (cases "n < length reqs")
    case True
    then show ?thesis using nth_req[of n] N by (auto simp add: nth_append)
  next
    case False
    have "(reqs @ extra) ! n \<in> set extra"
      using that False by (simp add: nth_append)
    then have "(reqs @ extra) ! n \<in> set reqs" using ids(2) by (auto simp add: trp)
    from in_reqs[OF this] False show ?thesis by auto
  qed
  have nth_skel: "\<exists>j < length ?E. skel (?R ! n) = tag_skel (events tasks) (rt, j) \<and> (n < length reqs \<longrightarrow> j = n)"
    if "n < length ?st" for n
  proof -
    from sk[of n] that len obtain j where j: "j < length ?E" "(reqs @ extra) ! n = ev_request (j, ?E ! j)"
      "n < length reqs \<longrightarrow> j = n" by auto
    have "id2 (?st ! n) = ids ((reqs @ extra) ! n)"
      using ids(1) that len by (metis nth_map trp snd_conv)
    from skel_request[OF j(1,2) this] j(1,3) show ?thesis
      unfolding nthR[OF that] by auto
  qed
  show "map skel (take (length (snd tr)) ?R) = map (tag_skel (events tasks)) (type_tags tr)"
  proof (rule nth_equalityI)
    show "length (map skel (take (length (snd tr)) ?R)) = length (map (tag_skel (events tasks)) (type_tags tr))"
      unfolding sndtr by (simp add: lenR ltags)
  next
    fix n assume "n < length (map skel (take (length (snd tr)) ?R))"
    then have n: "n < length reqs" "n < length ?st"
      unfolding sndtr using len by (simp_all add: lenR)
    from nth_skel[OF n(2)] n(1) have "skel (?R ! n) = tag_skel (events tasks) (rt, n)" by auto
    then show "map skel (take (length (snd tr)) ?R) ! n = map (tag_skel (events tasks)) (type_tags tr) ! n"
      unfolding sndtr using n by (simp add: lenR ltags nth_tags)
  qed
  show "\<forall>kv \<in> set ?R. \<exists>tag \<in> set (type_tags tr). skel kv = tag_skel (events tasks) tag"
  proof
    fix kv assume "kv \<in> set ?R"
    then obtain n where n: "n < length ?R" "kv = ?R ! n" by (auto simp add: in_set_conv_nth)
    then have "n < length ?st" using len by (simp add: lenR)
    from nth_skel[OF this] obtain j where "j < length ?E" "skel kv = tag_skel (events tasks) (rt, j)"
      using n(2) by auto
    then show "\<exists>tag \<in> set (type_tags tr). skel kv = tag_skel (events tasks) tag"
      by (auto simp add: type_tags_def trp N)
  qed
qed

lemma events_cases:
  assumes "e \<in> set (events tasks)"
  obtains key docs did d info reqs i req where
    "(key, docs) \<in> set tasks" "did < length docs" "docs ! did = (d, info, reqs)"
    "i < length reqs" "reqs ! i = req" "e = (key, d, did, info, i, req)"
proof -
  from assms obtain task where task: "task \<in> set tasks" "e \<in> set (task_events task)"
    by (auto simp add: events_def)
  obtain key docs where kd: "task = (key, docs)" by (cases task) auto
  from task(2) obtain idoc where idoc: "idoc \<in> set (enumerate 0 docs)" "e \<in> set (doc_events key idoc)"
    by (auto simp add: kd task_events_def)
  obtain did d info reqs where id: "idoc = (did, d, info, reqs)" by (cases idoc) auto
  from idoc(1) have did: "did < length docs" "docs ! did = (d, info, reqs)"
    by (simp_all add: id in_set_enumerate_eq)
  from idoc(2) obtain ireq where ireq: "ireq \<in> set (enumerate 0 reqs)" "e = (key, d, did, info, ireq)"
    by (auto simp add: id doc_events_def)
  obtain i req where ir: "ireq = (i, req)" by (cases ireq) auto
  from ireq(1) have i: "i < length reqs" "reqs ! i = req"
    by (simp_all add: ir in_set_enumerate_eq)
  from task(1) did i ireq(2) show thesis
    by (intro that[of key docs did d info reqs i req]) (simp_all add: kd ir)
qed

lemma same_bucket_same_type:
  assumes keys: "distinct (map fst tasks)"
    and single: "\<forall>task \<in> set tasks. \<forall>doc \<in> set (snd task).
                   \<forall>r \<in> set (snd (snd doc)). \<forall>r' \<in> set (snd (snd doc)). request_type r = request_type r'"
    and e: "e \<in> set (events tasks)" and e': "e' \<in> set (events tasks)"
    and b: "ev_bucket e = ev_bucket e'"
  shows "ev_type e = ev_type e'"
proof -
  from e obtain key docs did d info reqs i req where
    1: "(key, docs) \<in> set tasks" "did < length docs" "docs ! did = (d, info, reqs)"
      "i < length reqs" "reqs ! i = req" "e = (key, d, did, info, i, req)"
    by (rule events_cases)
  from e' obtain key' docs' did' d' info' reqs' i' req' where
    2: "(key', docs') \<in> set tasks" "did' < length docs'" "docs' ! did' = (d', info', reqs')"
      "i' < length reqs'" "reqs' ! i' = req'" "e' = (key', d', did', info', i', req')"
    by (rule events_cases)
  from b have k: "key' = key" and d: "did' = did"
    by (simp_all add: 1(6) 2(6) ev_bucket_def)
  from keys 1(1) 2(1) k have "docs' = docs"
    by (metis eq_key_imp_eq_value)
  with 1(3) 2(3) d have r: "reqs' = reqs" by simp
  have doc: "(d, info, reqs) \<in> set docs" using 1(2,3) by (metis nth_mem)
  have m1: "req \<in> set reqs" using nth_mem[OF 1(4)] by (simp only: 1(5))
  have "reqs' ! i' \<in> set reqs'" using 2(4) by (rule nth_mem)
  then have "req' \<in> set reqs'" unfolding 2(5) .
  then have m2: "req' \<in> set reqs" unfolding r .
  have "request_type req = request_type req'"
    by (rule single[rule_format, OF 1(1), of "(d, info, reqs)"]) (simp_all add: doc m1 m2)
  then show ?thesis by (simp add: 1(6) 2(6) ev_type_def)
qed

lemma distinct_type_tags:
  "distinct (map fst rs) \<Longrightarrow> distinct (concat (map type_tags rs))"
proof (induction rs)
  case Nil
  show ?case by simp
next
  case (Cons tr rs)
  have 1: "distinct (type_tags tr)"
    by (simp add: type_tags_def distinct_map inj_on_def)
  have 2: "fst tag = fst tr" if "tag \<in> set (type_tags tr)" for tag
    using that by (auto simp add: type_tags_def)
  have 3: "fst tag \<in> fst ` set rs" if "tag \<in> set (concat (map type_tags rs))" for tag
    using that by (force simp add: type_tags_def)
  have "set (type_tags tr) \<inter> set (concat (map type_tags rs)) = {}"
  proof (rule ccontr)
    assume "set (type_tags tr) \<inter> set (concat (map type_tags rs)) \<noteq> {}"
    then obtain tag where "tag \<in> set (type_tags tr)" "tag \<in> set (concat (map type_tags rs))" by blast
    with 2 3 have "fst tr \<in> fst ` set rs" by metis
    with Cons.prems show False by simp
  qed
  moreover have "distinct (concat (map type_tags rs))" using Cons by simp
  ultimately show ?case using 1 by simp
qed

lemma events_by_tags:
  fixes tasks :: "('a, 'd, 'm) task_stream list"
  defines "rs \<equiv> fst (multiplex tasks)"
  shows "mset (map (ev_at (events tasks)) (concat (map type_tags rs))) = mset (events tasks)"
proof -
  let ?evs = "events tasks"
  have len: "length (snd tr) = length (filter (\<lambda>e. ev_type e = fst tr) ?evs)" if "tr \<in> set rs" for tr
  proof -
    from that have "dd_get rs (fst tr) = snd tr"
      using dd_get_item[OF multiplex_distinct, of "fst tr" "snd tr" tasks] by (simp add: rs_def)
    then have "length (snd tr) = length (dd_get rs (fst tr))" by simp
    also have "\<dots> = length (filter (\<lambda>e. ev_type e = fst tr) ?evs)"
      by (simp add: rs_def multiplex_events multiplex_closed)
    finally show ?thesis .
  qed
  have one: "map (ev_at ?evs) (type_tags tr) = filter (\<lambda>e. ev_type e = fst tr) ?evs" if "tr \<in> set rs" for tr
    by (rule nth_equalityI) (simp_all add: type_tags_def len[OF that] ev_at_def)
  have "map (ev_at ?evs) (concat (map type_tags rs))
          = concat (map (\<lambda>tr. map (ev_at ?evs) (type_tags tr)) rs)"
    by (simp add: map_concat comp_def)
  also have "\<dots> = concat (map (\<lambda>tr. filter (\<lambda>e. ev_type e = fst tr) ?evs) rs)"
    using one by (intro arg_cong[where f = concat] map_cong) simp_all
  also have "\<dots> = concat (map (\<lambda>rt. filter (\<lambda>e. ev_type e = rt) ?evs) (map fst rs))"
    by (simp add: comp_def)
  finally have "mset (map (ev_at ?evs) (concat (map type_tags rs)))
                  = (\<Sum>rt\<leftarrow>map fst rs. mset (filter (\<lambda>e. ev_type e = rt) ?evs))"
    by (simp only: mset_concat map_map comp_def)
  also have "\<dots> = mset ?evs"
  proof (rule partition_by_key)
    show "distinct (map fst rs)" unfolding rs_def by (rule multiplex_distinct)
    show "ev_type ` set ?evs \<subseteq> set (map fst rs)"
    proof
      fix rt assume "rt \<in> ev_type ` set ?evs"
      then have "filter (\<lambda>e. ev_type e = rt) ?evs \<noteq> []"
        by (auto simp add: filter_empty_conv)
      then have "length (dd_get rs rt) \<noteq> 0"
        by (simp add: rs_def multiplex_events multiplex_closed)
      then have "dd_get rs rt \<noteq> []" by auto
      from dd_get_in[OF this] show "rt \<in> set (map fst rs)" by force
    qed
  qed
  finally show ?thesis .
qed

lemma distinct_filter_key:
  "distinct (map (\<lambda>x. (f x, u x)) xs) \<Longrightarrow> distinct (map u (filter (\<lambda>x. f x = b) xs))"
  by (induction xs) (auto simp add: image_iff)

lemma skel_parts:
  "fst (skel kv) = fst kv" "fst (snd (skel kv)) = fst (snd kv)" "snd (snd (skel kv)) = entry_uid (snd kv)"
  by (simp_all add: skel_def)

lemma recovered_rebuild:
  assumes "distinct (map fst q)"
  shows "recovered q
           = concat (map (\<lambda>b. map (\<lambda>x. (fst b, snd b, fst x)) (sorted_bucket (dd_get q b))) (map fst q))"
proof -
  have "recovered (map (\<lambda>b. (b, dd_get q b)) (map fst q))
          = concat (map (\<lambda>b. map (\<lambda>x. (fst b, snd b, fst x)) (sorted_bucket (dd_get q b))) (map fst q))"
    unfolding recovered_def by (simp add: comp_def)
  with alist_rebuild[OF assms] show ?thesis by simp
qed

lemma recovered_mset_general:
  fixes KS REAL :: "((string \<times> nat) \<times> ('r, 'm) entry) list"
    and tags :: "'t list" and SK :: "'t \<Rightarrow> (string \<times> nat) \<times> nat \<times> nat"
  assumes sub: "set REAL \<subseteq> set KS"
    and S2: "map skel REAL = map SK tags"
    and S1: "\<forall>kv \<in> set KS. \<exists>tag \<in> set tags. skel kv = SK tag"
    and dist: "distinct tags"
    and inj: "\<forall>tag \<in> set tags. \<forall>tag' \<in> set tags.
                fst (SK tag) = fst (SK tag') \<and> snd (snd (SK tag)) = snd (snd (SK tag')) \<longrightarrow> tag = tag'"
  shows "mset (recovered (foldl app [] KS))
           = mset (map (\<lambda>tag. (fst (fst (SK tag)), snd (fst (SK tag)), fst (snd (SK tag)))) tags)"
proof -
  define q where "q = foldl app [] KS"
  define F :: "(string \<times> nat) \<times> ('r, 'm) entry \<Rightarrow> string \<times> nat \<times> nat"
    where "F kv = (fst (fst kv), snd (fst kv), fst (snd kv))" for kv
  define xs where "xs b = map snd (filter (\<lambda>kv. fst kv = b) KS)" for b
  define ys where "ys b = map snd (filter (\<lambda>kv. fst kv = b) REAL)" for b
  have dq: "distinct (map fst q)" unfolding q_def by (rule distinct_foldl_app) simp
  have keys: "set (map fst q) = fst ` set KS" unfolding q_def by (simp add: keys_foldl_app)
  have bucket: "dd_get q b = xs b" for b unfolding q_def xs_def by (simp add: dd_get_foldl_app)
  have real_tag: "\<exists>kv \<in> set REAL. skel kv = SK tag" if "tag \<in> set tags" for tag
  proof -
    from that have "SK tag \<in> set (map SK tags)" by simp
    then have "SK tag \<in> set (map skel REAL)" by (simp only: S2)
    then show ?thesis by auto
  qed
  have per_bucket: "mset (map fst (dedup (xs b))) = mset (map fst (ys b))" for b
  proof (rule dedup_mset)
    show "\<forall>x \<in> set (xs b). \<forall>y \<in> set (xs b). entry_uid x = entry_uid y \<longrightarrow> fst x = fst y"
    proof (intro ballI impI)
      fix x y assume x: "x \<in> set (xs b)" and y: "y \<in> set (xs b)" and u: "entry_uid x = entry_uid y"
      from x S1 obtain tag where t: "tag \<in> set tags" "skel (b, x) = SK tag"
        by (auto simp add: xs_def)
      from y S1 obtain tag' where t': "tag' \<in> set tags" "skel (b, y) = SK tag'"
        by (auto simp add: xs_def)
      have "fst (SK tag) = fst (SK tag') \<and> snd (snd (SK tag)) = snd (snd (SK tag'))"
        using u by (simp add: t(2)[symmetric] t'(2)[symmetric] skel_def)
      with inj t(1) t'(1) have "tag = tag'" by blast
      with t(2) t'(2) have "skel (b, x) = skel (b, y)" by simp
      then show "fst x = fst y" by (simp add: skel_def)
    qed
    show "set (ys b) \<subseteq> set (xs b)" using sub by (auto simp add: xs_def ys_def)
    show "entry_uid ` set (xs b) \<subseteq> entry_uid ` set (ys b)"
    proof
      fix u assume "u \<in> entry_uid ` set (xs b)"
      then obtain x where x: "x \<in> set (xs b)" "u = entry_uid x" by auto
      from x(1) S1 obtain tag where t: "tag \<in> set tags" "skel (b, x) = SK tag"
        by (auto simp add: xs_def)
      from real_tag[OF t(1)] obtain kv where kv: "kv \<in> set REAL" "skel kv = SK tag" by auto
      from kv(2) t(2) have "skel kv = skel (b, x)" by simp
      then have "fst kv = b" "entry_uid (snd kv) = entry_uid x"
        by (simp_all add: skel_def)
      with kv(1) have "snd kv \<in> set (ys b)" by (auto simp add: ys_def)
      with \<open>entry_uid (snd kv) = entry_uid x\<close> x(2) show "u \<in> entry_uid ` set (ys b)"
        by (metis image_eqI)
    qed
    have "map (\<lambda>kv. (fst kv, entry_uid (snd kv))) REAL = map (\<lambda>s. (fst s, snd (snd s))) (map skel REAL)"
      by (simp add: skel_def)
    also have "\<dots> = map (\<lambda>tag. (fst (SK tag), snd (snd (SK tag)))) tags"
      by (simp add: S2)
    finally have "distinct (map (\<lambda>kv. (fst kv, entry_uid (snd kv))) REAL)"
      using dist inj by (simp add: distinct_map inj_on_def)
    then have "distinct (map (\<lambda>kv. entry_uid (snd kv)) (filter (\<lambda>kv. fst kv = b) REAL))"
      by (rule distinct_filter_key)
    then show "distinct (map entry_uid (ys b))" by (simp add: ys_def comp_def)
  qed
  have bucket_term: "mset (map (\<lambda>x. (fst b, snd b, fst x)) (sorted_bucket (dd_get q b)))
                = mset (filter (\<lambda>t. (fst t, fst (snd t)) = b) (map F REAL))" for b
  proof -
    have "mset (map (\<lambda>x. (fst b, snd b, fst x)) (sorted_bucket (dd_get q b)))
            = image_mset (\<lambda>s. (fst b, snd b, s)) (mset (map fst (sorted_bucket (xs b))))"
      by (simp add: bucket multiset.map_comp comp_def)
    also have "mset (map fst (sorted_bucket (xs b))) = mset (map fst (dedup (xs b)))"
      by (simp add: sorted_bucket_def)
    also have "\<dots> = mset (map fst (ys b))" by (rule per_bucket)
    also have "image_mset (\<lambda>s. (fst b, snd b, s)) (mset (map fst (ys b)))
                 = mset (map (\<lambda>kv. (fst b, snd b, fst (snd kv))) (filter (\<lambda>kv. fst kv = b) REAL))"
      by (simp add: ys_def multiset.map_comp comp_def)
    also have "map (\<lambda>kv. (fst b, snd b, fst (snd kv))) (filter (\<lambda>kv. fst kv = b) REAL)
                 = map F (filter (\<lambda>kv. fst kv = b) REAL)"
      by (intro map_cong) (auto simp add: F_def)
    also have "\<dots> = filter (\<lambda>t. (fst t, fst (snd t)) = b) (map F REAL)"
      by (simp add: filter_map comp_def F_def)
    finally show ?thesis .
  qed
  have "mset (recovered q)
          = (\<Sum>b\<leftarrow>map fst q. mset (map (\<lambda>x. (fst b, snd b, fst x)) (sorted_bucket (dd_get q b))))"
    by (simp only: recovered_rebuild[OF dq] mset_concat map_map comp_def)
  also have "\<dots> = (\<Sum>b\<leftarrow>map fst q. mset (filter (\<lambda>t. (fst t, fst (snd t)) = b) (map F REAL)))"
    by (simp only: bucket_term)
  also have "\<dots> = mset (map F REAL)"
  proof (rule partition_by_key[OF dq])
    have "(\<lambda>t. (fst t, fst (snd t))) ` set (map F REAL) = fst ` set REAL"
      by (force simp add: F_def image_iff)
    also have "\<dots> \<subseteq> fst ` set KS" using sub by auto
    finally show "(\<lambda>t. (fst t, fst (snd t))) ` set (map F REAL) \<subseteq> set (map fst q)"
      by (simp only: keys)
  qed
  also have "map F REAL = map (\<lambda>s. (fst (fst s), snd (fst s), fst (snd s))) (map skel REAL)"
    by (simp add: F_def skel_def)
  also have "\<dots> = map (\<lambda>tag. (fst (fst (SK tag)), snd (fst (SK tag)), fst (snd (SK tag)))) tags"
    by (simp add: S2)
  finally show ?thesis by (simp only: q_def)
qed

section \<open>The bijection\<close>

lemma stream_ids:
  assumes "0 < B"
    and "\<forall>xs p. xs \<noteq> [] \<longrightarrow> length (pad xs p) = p" and "\<forall>xs p. set (pad xs p) \<subseteq> set xs"
  shows "\<exists>extra. map id2 (stream_of model pad W B tr) = map ids (snd tr @ extra)
            \<and> set extra \<subseteq> set (snd tr)"
proof (cases "1 < W")
  case True
  from stream_distributed_ids[OF True assms, of model "fst tr" "snd tr"] show ?thesis by simp
next
  case False
  from stream_local[OF False assms(1), of model pad "fst tr" "snd tr"]
  have "map id2 (stream_of model pad W B tr) = map ids (snd tr @ [])"
    by (simp add: id2_triple del: map_map)
  then show ?thesis by (intro exI[of _ "[]"]) simp
qed

lemma group_length:
  assumes "tr \<in> set (fst (multiplex tasks))"
  shows "length (snd tr) = length (filter (\<lambda>e. ev_type e = fst tr) (events tasks))"
proof -
  from assms have "dd_get (fst (multiplex tasks)) (fst tr) = snd tr"
    using dd_get_item[OF multiplex_distinct, of "fst tr" "snd tr" tasks] by simp
  then have "length (snd tr) = length (dd_get (fst (multiplex tasks)) (fst tr))" by simp
  also have "\<dots> = length (filter (\<lambda>e. ev_type e = fst tr) (events tasks))"
    by (simp add: multiplex_events multiplex_closed)
  finally show ?thesis .
qed

lemma tag_valid:
  assumes "tag \<in> set (concat (map type_tags (fst (multiplex tasks))))"
  shows "snd tag < length (filter (\<lambda>e. ev_type e = fst tag) (events tasks))"
proof -
  from assms obtain tr where tr: "tr \<in> set (fst (multiplex tasks))" "tag \<in> set (type_tags tr)"
    by auto
  then have "fst tag = fst tr" "snd tag < length (snd tr)"
    by (auto simp add: type_tags_def)
  with group_length[OF tr(1)] show ?thesis by simp
qed

lemma ev_at_valid:
  assumes "snd tag < length (filter (\<lambda>e. ev_type e = fst tag) evs)"
  shows "ev_at evs tag \<in> set evs" and "ev_type (ev_at evs tag) = fst tag"
proof -
  have "ev_at evs tag \<in> set (filter (\<lambda>e. ev_type e = fst tag) evs)"
    unfolding ev_at_def using assms by (rule nth_mem)
  then show "ev_at evs tag \<in> set evs" and "ev_type (ev_at evs tag) = fst tag" by simp_all
qed

lemma triple_of_tag:
  "(fst (fst (tag_skel evs tag)), snd (fst (tag_skel evs tag)), fst (snd (tag_skel evs tag)))
     = ev_triple (ev_at evs tag)"
  by (cases "ev_at evs tag") (simp add: tag_skel_def ev_bucket_def ev_triple_def)

lemma execute_bijection:
  fixes tasks :: "('a, 'd, 'm) task_stream list" and model :: "('a, 'r) LM"
    and queue :: "('r, 'm) queue"
  assumes keys: "distinct (map fst tasks)"
    and single: "\<forall>task \<in> set tasks. \<forall>doc \<in> set (snd task).
                   \<forall>r \<in> set (snd (snd doc)). \<forall>r' \<in> set (snd (snd doc)). request_type r = request_type r'"
    and pad_len: "\<forall>xs p. xs \<noteq> [] \<longrightarrow> length (pad xs p) = p" and pad_set: "\<forall>xs p. set (pad xs p) \<subseteq> set xs"
    and run: "execute model pad W B (multiplex tasks) = Inr queue"
  shows "mset (recovered queue) = mset (constructed tasks)"
proof (cases "fst (multiplex tasks) = []")
  case True
  have "events tasks = []"
  proof (rule ccontr)
    assume "events tasks \<noteq> []"
    then have "hd (events tasks) \<in> set (events tasks)" by (rule hd_in_set)
    then obtain e where e: "e \<in> set (events tasks)" ..
    then have "filter (\<lambda>x. ev_type x = ev_type e) (events tasks) \<noteq> []"
      by (auto simp add: filter_empty_conv)
    then have "length (dd_get (fst (multiplex tasks)) (ev_type e)) \<noteq> 0"
      by (simp add: multiplex_events multiplex_closed)
    with True show False by simp
  qed
  moreover from run True have "queue = []"
    by (cases "multiplex tasks") (simp add: execute_def)
  ultimately show ?thesis by (simp add: constructed_events recovered_def)
next
  case False
  define rs where "rs = fst (multiplex tasks)"
  define os where "os = snd (multiplex tasks)"
  define evs where "evs = events tasks"
  define KS :: "((string \<times> nat) \<times> ('r, 'm) entry) list"
    where "KS = concat (map (routed model pad W B os) rs)"
  define REAL :: "((string \<times> nat) \<times> ('r, 'm) entry) list"
    where "REAL = concat (map (\<lambda>tr. take (length (snd tr)) (routed model pad W B os tr)) rs)"
  define tags where "tags = concat (map type_tags rs)"
  have mt: "multiplex tasks = (rs, os)" by (simp add: rs_def os_def)
  have rsne: "rs \<noteq> []" using False by (simp add: rs_def)
  from run rsne have B: "0 < B" and fold: "foldM (exec_type model pad W B os) [] rs = Inr queue"
    by (auto simp add: execute_def mt split: if_splits)
  from foldM_exec_type_Inr[OF fold] have q: "queue = foldl app [] KS"
    by (simp add: KS_def)
  have per_type:
    "map skel (take (length (snd tr)) (routed model pad W B os tr :: ((string \<times> nat) \<times> ('r, 'm) entry) list))
       = map (tag_skel evs) (type_tags tr)
     \<and> (\<forall>kv \<in> set (routed model pad W B os tr :: ((string \<times> nat) \<times> ('r, 'm) entry) list).
           \<exists>tag \<in> set (type_tags tr). skel kv = tag_skel evs tag)"
    if "tr \<in> set rs" for tr
  proof -
    from stream_ids[OF B pad_len pad_set, of model W tr] obtain extra where
      "map id2 (stream_of model pad W B tr) = map ids (snd tr @ extra)" "set extra \<subseteq> set (snd tr)"
      by blast
    from routed_skel[OF that[unfolded rs_def] this] show ?thesis
      by (simp add: os_def evs_def)
  qed
  have sub: "set REAL \<subseteq> set KS"
    unfolding REAL_def KS_def using set_take_subset by fastforce
  have S2: "map skel REAL = map (tag_skel evs) tags"
  proof -
    have "map skel REAL = concat (map (\<lambda>tr. map skel (take (length (snd tr)) (routed model pad W B os tr))) rs)"
      by (simp add: REAL_def map_concat comp_def)
    also have "\<dots> = concat (map (\<lambda>tr. map (tag_skel evs) (type_tags tr)) rs)"
      using per_type by (intro arg_cong[where f = concat] map_cong) simp_all
    also have "\<dots> = map (tag_skel evs) tags"
      by (simp add: tags_def map_concat comp_def)
    finally show ?thesis .
  qed
  have S1: "\<forall>kv \<in> set KS. \<exists>tag \<in> set tags. skel kv = tag_skel evs tag"
  proof
    fix kv assume "kv \<in> set KS"
    then obtain tr where tr: "tr \<in> set rs" "kv \<in> set (routed model pad W B os tr)"
      by (auto simp add: KS_def)
    with per_type[OF tr(1)] obtain tag where "tag \<in> set (type_tags tr)" "skel kv = tag_skel evs tag"
      by blast
    with tr(1) show "\<exists>tag \<in> set tags. skel kv = tag_skel evs tag"
      by (auto simp add: tags_def)
  qed
  have dist: "distinct tags"
    unfolding tags_def rs_def by (rule distinct_type_tags[OF multiplex_distinct])
  have inj: "\<forall>tag \<in> set tags. \<forall>tag' \<in> set tags.
                fst (tag_skel evs tag) = fst (tag_skel evs tag')
                \<and> snd (snd (tag_skel evs tag)) = snd (snd (tag_skel evs tag')) \<longrightarrow> tag = tag'"
  proof (intro ballI impI)
    fix tag tag' assume t: "tag \<in> set tags" and t': "tag' \<in> set tags"
      and eq: "fst (tag_skel evs tag) = fst (tag_skel evs tag')
                \<and> snd (snd (tag_skel evs tag)) = snd (snd (tag_skel evs tag'))"
    note v = ev_at_valid[OF tag_valid[OF t[unfolded tags_def rs_def]], folded evs_def]
    note v' = ev_at_valid[OF tag_valid[OF t'[unfolded tags_def rs_def]], folded evs_def]
    from eq have b: "ev_bucket (ev_at evs tag) = ev_bucket (ev_at evs tag')" and s: "snd tag = snd tag'"
      by (simp_all add: tag_skel_def)
    from same_bucket_same_type[OF keys single v(1)[unfolded evs_def] v'(1)[unfolded evs_def] b[unfolded evs_def]]
    have "fst tag = fst tag'" using v(2) v'(2) by (simp add: evs_def)
    with s show "tag = tag'" by (simp add: prod_eq_iff)
  qed
  from recovered_mset_general[OF sub S2 S1 dist inj]
  have "mset (recovered queue) = mset (map (\<lambda>tag. ev_triple (ev_at evs tag)) tags)"
    by (simp only: q triple_of_tag)
  also have "\<dots> = image_mset ev_triple (mset (map (ev_at evs) tags))"
    by (simp add: multiset.map_comp comp_def)
  also have "mset (map (ev_at evs) tags) = mset evs"
    unfolding tags_def rs_def evs_def by (rule events_by_tags)
  finally show ?thesis by (simp add: constructed_events evs_def)
qed

lemma length_concat_replicate: "length (concat (replicate n xs)) = n * length xs"
  by (induction n) simp_all

lemma pad_cycle_ok:
  "\<forall>(xs :: 'b list) p. xs \<noteq> [] \<longrightarrow> length (pad_cycle xs p) = p"
  "\<forall>(xs :: 'b list) p. set (pad_cycle xs p) \<subseteq> set xs"
proof -
  show "\<forall>(xs :: 'b list) p. xs \<noteq> [] \<longrightarrow> length (pad_cycle xs p) = p"
  proof (intro allI impI)
    fix xs :: "'b list" and p :: nat assume "xs \<noteq> []"
    then have "1 \<le> length xs" by (cases xs) simp_all
    then have "p * 1 \<le> p * length xs" by (rule mult_le_mono2)
    then show "length (pad_cycle xs p) = p"
      by (simp add: pad_cycle_def length_concat_replicate)
  qed
  show "\<forall>(xs :: 'b list) p. set (pad_cycle xs p) \<subseteq> set xs"
  proof (intro allI)
    fix xs :: "'b list" and p :: nat
    have "set (take p (concat (replicate p xs))) \<subseteq> set (concat (replicate p xs))"
      by (rule set_take_subset)
    also have "\<dots> \<subseteq> set xs" by auto
    finally show "set (pad_cycle xs p) \<subseteq> set xs" by (simp add: pad_cycle_def)
  qed
qed

lemma pad_tail_ok:
  "\<forall>xs p. xs \<noteq> [] \<longrightarrow> length (pad_tail xs p) = p" "\<forall>xs p. set (pad_tail xs p) \<subseteq> set xs"
  by (auto simp add: pad_tail_def)

lemma map_fst_enumerate':
  "map (\<lambda>p. f (fst p)) (enumerate n xs) = map f [n..<n + length xs]"
proof -
  have "map f (map fst (enumerate n xs)) = map (\<lambda>p. f (fst p)) (enumerate n xs)"
    by (simp only: map_map comp_def)
  then show ?thesis by (simp only: map_fst_enumerate)
qed

lemma distinct_indexed:
  assumes "\<And>x. x \<in> set xs \<Longrightarrow> distinct (h x)"
  shows "distinct (concat (map (\<lambda>p. map (Pair (fst p)) (h (snd p))) (enumerate k xs)))"
  using assms
proof (induction xs arbitrary: k)
  case Nil
  show ?case by simp
next
  case (Cons x xs)
  have 1: "distinct (map (Pair k) (h x))"
    using Cons.prems[of x] by (simp add: distinct_map inj_on_def)
  have 2: "distinct (concat (map (\<lambda>p. map (Pair (fst p)) (h (snd p))) (enumerate (Suc k) xs)))"
    using Cons.prems by (intro Cons.IH) simp
  have 3: "Suc k \<le> fst t" if "t \<in> set (concat (map (\<lambda>p. map (Pair (fst p)) (h (snd p))) (enumerate (Suc k) xs)))" for t
    using that by (auto simp add: in_set_enumerate_eq)
  have 4: "fst t = k" if "t \<in> set (map (Pair k) (h x))" for t
    using that by auto
  have "set (map (Pair k) (h x)) \<inter>
          set (concat (map (\<lambda>p. map (Pair (fst p)) (h (snd p))) (enumerate (Suc k) xs))) = {}"
  proof (rule ccontr)
    assume "\<not> ?thesis"
    then obtain t where "t \<in> set (map (Pair k) (h x))"
      "t \<in> set (concat (map (\<lambda>p. map (Pair (fst p)) (h (snd p))) (enumerate (Suc k) xs)))" by blast
    with 3 4 show False by fastforce
  qed
  with 1 2 show ?case by simp
qed

lemma distinct_constructed:
  assumes "distinct (map fst tasks)"
  shows "distinct (constructed tasks)"
  using assms
proof (induction tasks)
  case Nil
  show ?case by (simp add: constructed_def)
next
  case (Cons task tasks)
  let ?T = "concat (map (\<lambda>idoc. map (\<lambda>ireq. (fst task, fst idoc, fst ireq))
                                      (enumerate 0 (snd (snd (snd idoc))))) (enumerate 0 (snd task)))"
  let ?P = "concat (map (\<lambda>p. map (Pair (fst p)) (map fst (enumerate 0 (snd (snd (snd p))))))
                     (enumerate 0 (snd task)))"
  have "distinct ?P" by (rule distinct_indexed) simp
  have inner: "map (\<lambda>ireq. (k, a, fst ireq)) (enumerate 0 reqs) = map (\<lambda>i. (k, a, i)) [0..<length reqs]"
    for k a reqs
    using map_fst_enumerate'[of "\<lambda>i. (k, a, i)" 0 reqs] by simp
  have "?T = map (Pair (fst task)) ?P"
    by (simp add: map_concat comp_def inner)
  with \<open>distinct ?P\<close> have 1: "distinct ?T" by (simp only: distinct_map) (simp add: inj_on_def)
  have 2: "distinct (constructed tasks)" using Cons by simp
  have 3: "fst t = fst task" if "t \<in> set ?T" for t using that by auto
  have 4: "fst t \<in> fst ` set tasks" if "t \<in> set (constructed tasks)" for t
  proof -
    from that obtain task' where "task' \<in> set tasks" "fst t = fst task'"
      unfolding constructed_def by auto
    then show ?thesis by (rule_tac image_eqI)
  qed
  have "set ?T \<inter> set (constructed tasks) = {}"
  proof (rule ccontr)
    assume "\<not> ?thesis"
    then obtain t where "t \<in> set ?T" "t \<in> set (constructed tasks)" by blast
    with 3[of t] 4[of t] have "fst task \<in> fst ` set tasks" by simp
    with Cons.prems show False by simp
  qed
  moreover have "constructed (task # tasks) = ?T @ constructed tasks"
    by (simp add: constructed_def)
  ultimately show ?case using 1 2 by simp
qed

lemma length_filter_sort_key:
  "length (filter P (sort_key f xs)) = length (filter P xs)"
proof -
  have "mset (filter P (sort_key f xs)) = mset (filter P xs)" by simp
  then show ?thesis by (rule mset_eq_length)
qed

lemma one_first_seen:
  assumes "x \<in> set xs" and "entry_uid x = u"
  shows "length (filter (\<lambda>y. entry_uid y = u) (sorted_bucket xs)) = 1"
proof -
  from assms have "\<exists>y. y \<in> set xs \<and> entry_uid y = u" by blast
  then have "find (\<lambda>y. entry_uid y = u) xs \<noteq> None"
    unfolding find_None_iff by simp
  then obtain y where "find (\<lambda>y. entry_uid y = u) xs = Some y" by auto
  then have "filter (\<lambda>y. entry_uid y = u) (first_seen {} xs) = [y]"
    by (simp add: first_seen_filter)
  then show ?thesis
    by (simp add: sorted_bucket_def length_filter_sort_key dedup_first_seen)
qed

lemma one_survivor:
  fixes tasks :: "('a, 'd, 'm) task_stream list" and model :: "('a, 'r) LM"
    and queue :: "('r, 'm) queue"
  assumes pad_len: "\<forall>xs p. xs \<noteq> [] \<longrightarrow> length (pad xs p) = p" and pad_set: "\<forall>xs p. set (pad xs p) \<subseteq> set xs"
    and run: "execute model pad W B (multiplex tasks) = Inr queue"
    and j: "j < length (dd_get (snd (multiplex tasks)) rt)"
  shows "length (filter (\<lambda>x. entry_uid x = j)
           (sorted_bucket (dd_get queue (task_template_key (dd_get (snd (multiplex tasks)) rt ! j),
                                         origin_doc_id (dd_get (snd (multiplex tasks)) rt ! j))))) = 1"
proof -
  define rs where "rs = fst (multiplex tasks)"
  define os where "os = snd (multiplex tasks)"
  define evs where "evs = events tasks"
  define KS :: "((string \<times> nat) \<times> ('r, 'm) entry) list"
    where "KS = concat (map (routed model pad W B os) rs)"
  define tr where "tr = (rt, dd_get rs rt)"
  define kv where "kv = routed model pad W B os tr ! j"
  have mt: "multiplex tasks = (rs, os)" by (simp add: rs_def os_def)
  from j have jr: "j < length (dd_get rs rt)"
    by (simp add: rs_def multiplex_aligned)
  then have "dd_get rs rt \<noteq> []" by auto
  from dd_get_in[OF this] have tr: "tr \<in> set rs" by (simp add: tr_def)
  then have rsne: "rs \<noteq> []" by auto
  from run rsne have B: "0 < B" and fold: "foldM (exec_type model pad W B os) [] rs = Inr queue"
    by (auto simp add: execute_def mt split: if_splits)
  from foldM_exec_type_Inr[OF fold] have q: "queue = foldl app [] KS"
    by (simp add: KS_def)
  from stream_ids[OF B pad_len pad_set, of model W tr] obtain extra where
    "map id2 (stream_of model pad W B tr) = map ids (snd tr @ extra)" "set extra \<subseteq> set (snd tr)"
    by blast
  from routed_skel(1)[OF tr[unfolded rs_def] this]
  have sk: "map skel (take (length (snd tr)) (routed model pad W B os tr)) = map (tag_skel evs) (type_tags tr)"
    by (simp add: os_def evs_def)
  from arg_cong[OF sk, of length]
  have len: "min (length (routed model pad W B os tr)) (length (snd tr)) = length (snd tr)"
    by (simp add: type_tags_def)
  have jt: "j < length (snd tr)" using jr by (simp add: tr_def)
  with len have jl: "j < length (routed model pad W B os tr)" by simp
  from arg_cong[OF sk, of "\<lambda>l. l ! j"] jt jl
  have skj: "skel kv = tag_skel evs (rt, j)"
    by (simp add: kv_def type_tags_def tr_def)
  have "kv \<in> set (routed model pad W B os tr)"
    unfolding kv_def using jl by (rule nth_mem)
  with tr have kvin: "kv \<in> set KS" by (auto simp add: KS_def)
  from multiplex_nth(2)[OF jr[unfolded rs_def]]
  have o: "dd_get (snd (multiplex tasks)) rt ! j = ev_origin (ev_at evs (rt, j))"
    by (simp add: ev_at_def evs_def)
  have bo: "(task_template_key (ev_origin e), origin_doc_id (ev_origin e)) = ev_bucket e" for e :: "('a, 'd, 'm) event"
    by (cases e) (simp add: ev_origin_def ev_bucket_def)
  from skj have b: "fst kv = ev_bucket (ev_at evs (rt, j))" and u: "entry_uid (snd kv) = j"
    by (simp_all add: skel_def tag_skel_def)
  have "dd_get queue (fst kv) = map snd (filter (\<lambda>x. fst x = fst kv) KS)"
    by (simp add: q dd_get_foldl_app)
  with kvin have "snd kv \<in> set (dd_get queue (fst kv))" by auto
  from one_first_seen[OF this u] show ?thesis
    by (simp add: o bo b)
qed


section \<open>The grouped lists against the consumed stream\<close>

lemma event_at_position:
  assumes "(key, docs) \<in> set tasks" and "did < length docs" and "docs ! did = (d, info, reqs)"
    and "i < length reqs"
  shows "(key, d, did, info, i, reqs ! i) \<in> set (events tasks)"
proof -
  have 1: "(did, d, info, reqs) \<in> set (enumerate 0 docs)"
    using assms(2,3) by (simp add: in_set_enumerate_eq)
  have 2: "(i, reqs ! i) \<in> set (enumerate 0 reqs)"
    using assms(4) by (simp add: in_set_enumerate_eq)
  have "(key, d, did, info, i, reqs ! i) \<in> set (doc_events key (did, d, info, reqs))"
    using 2 by (auto simp add: doc_events_def)
  then have "(key, d, did, info, i, reqs ! i) \<in> set (task_events (key, docs))"
    using 1 by (auto simp add: task_events_def)
  then show ?thesis
    using assms(1) by (auto simp add: events_def)
qed

lemma multiplex_lists:
  "dd_get (fst (multiplex tasks)) rt
     = map ev_request (enumerate 0 (filter (\<lambda>e. ev_type e = rt) (events tasks)))"
  "dd_get (snd (multiplex tasks)) rt = map ev_origin (filter (\<lambda>e. ev_type e = rt) (events tasks))"
  by (simp_all add: multiplex_events multiplex_closed)

lemma multiplex_count:
  assumes "events tasks = before @ e # after"
  defines "n \<equiv> length (filter (\<lambda>x. ev_type x = ev_type e) before)"
  shows "n < length (dd_get (fst (multiplex tasks)) (ev_type e))"
    and "dd_get (fst (multiplex tasks)) (ev_type e) ! n = ev_request (n, e)"
    and "dd_get (snd (multiplex tasks)) (ev_type e) ! n = ev_origin e"
proof -
  let ?F = "filter (\<lambda>x. ev_type x = ev_type e) (events tasks)"
  have F: "?F = filter (\<lambda>x. ev_type x = ev_type e) before @ e # filter (\<lambda>x. ev_type x = ev_type e) after"
    by (simp add: assms(1))
  have len: "n < length ?F" unfolding F by (simp add: n_def)
  have nth: "?F ! n = e" unfolding F by (simp add: n_def nth_append)
  show "n < length (dd_get (fst (multiplex tasks)) (ev_type e))"
    using len by (simp add: multiplex_lists)
  show "dd_get (fst (multiplex tasks)) (ev_type e) ! n = ev_request (n, e)"
    using len nth by (simp add: multiplex_lists nth_enumerate_eq)
  show "dd_get (snd (multiplex tasks)) (ev_type e) ! n = ev_origin e"
    using len nth by (simp add: multiplex_lists)
qed

lemma multiplex_slot:
  assumes "(key, docs) \<in> set tasks" and "did < length docs" and "docs ! did = (d, info, reqs)"
    and "i < length reqs"
  shows "\<exists>j < length (dd_get (fst (multiplex tasks)) (request_type (reqs ! i))).
           dd_get (fst (multiplex tasks)) (request_type (reqs ! i)) ! j
             = (reqs ! i)\<lparr>doc_id := did, unique_request_id := j\<rparr>
         \<and> dd_get (snd (multiplex tasks)) (request_type (reqs ! i)) ! j
             = \<lparr>sub_index = i, task_template_key = key, origin_doc = d, origin_doc_id = did,
                fewshotex_logging_info = info, request_return_index = index (reqs ! i)\<rparr>"
proof -
  let ?e = "(key, d, did, info, i, reqs ! i)"
  from event_at_position[OF assms] obtain before after where
    sp: "events tasks = before @ ?e # after"
    by (auto simp add: in_set_conv_decomp)
  have t: "ev_type ?e = request_type (reqs ! i)" by (simp add: ev_type_def)
  note c = multiplex_count[OF sp, unfolded t]
  show ?thesis
    by (rule exI[of _ "length (filter (\<lambda>x. ev_type x = request_type (reqs ! i)) before)"])
       (simp add: c ev_request_def ev_origin_def)
qed

section \<open>The doc-id assertion in a run\<close>

lemma set_DataLoader: "batch \<in> set (DataLoader B xs) \<Longrightarrow> set batch \<subseteq> set xs"
proof (cases "0 < B")
  case True
  assume "batch \<in> set (DataLoader B xs)"
  then have "set batch \<subseteq> set (concat (DataLoader B xs))" by auto
  with concat_DataLoader[OF True, of xs] show ?thesis by simp
next
  case False
  assume "batch \<in> set (DataLoader B xs)"
  with False show ?thesis by (simp add: DataLoader.simps[of 0 xs])
qed

lemma set_prepare_data_loader:
  assumes "\<forall>xs p. set (pad xs p) \<subseteq> set xs" and "batch \<in> set (prepare_data_loader pad W B xs)"
  shows "set batch \<subseteq> set xs"
proof (cases "1 < W")
  case True
  with assms(2) have "set batch \<subseteq> set (even_batches pad (B * W) xs)"
    by (simp add: prepare_data_loader_def set_DataLoader)
  also have "\<dots> \<subseteq> set xs" using assms(1) by (auto simp add: even_batches_def)
  finally show ?thesis .
next
  case False
  with assms(2) show ?thesis by (simp add: prepare_data_loader_def set_DataLoader)
qed

lemma snd_in_enumerate: "sx \<in> set (enumerate n xs) \<Longrightarrow> snd sx \<in> set xs"
proof -
  assume "sx \<in> set (enumerate n xs)"
  then have "snd sx \<in> snd ` set (enumerate n xs)" by (rule imageI)
  then have "snd sx \<in> set (map snd (enumerate n xs))" by (simp only: set_map)
  then show ?thesis by (simp only: map_snd_enumerate)
qed

lemma zip_ids:
  assumes "t \<in> set (zip (map f xs) (zip (map g xs) ys))"
  shows "\<exists>x \<in> set xs. fst t = f x \<and> fst (snd t) = g x"
proof -
  from assms obtain n where n: "n < length xs" "n < length ys"
    "t = (map f xs ! n, map g xs ! n, ys ! n)"
    by (auto simp add: in_set_conv_nth)
  then have "fst t = f (xs ! n)" "fst (snd t) = g (xs ! n)" "xs ! n \<in> set xs" by simp_all
  then show ?thesis by blast
qed

lemma exec_batch_no_assertion:
  assumes "\<forall>r \<in> set (snd sbatch). unique_request_id r < length ol
             \<longrightarrow> doc_id r = origin_doc_id (ol ! unique_request_id r)"
  shows "exec_batch model d rt n N ol st sbatch \<noteq> Inl AssertionError"
proof (cases "model rt")
  case None
  then show ?thesis by (cases st; cases sbatch) (simp add: exec_batch_def)
next
  case (Some f)
  obtain seen q where st: "st = (seen, q)" by (cases st) auto
  obtain step batch where sb: "sbatch = (step, batch)" by (cases sbatch) auto
  have nz: "foldM (route ol) q (zip (map unique_request_id batch) (zip (map doc_id batch) ys)) \<noteq> Inl AssertionError"
    for ys
  proof (rule foldM_never)
    fix s t
    assume "t \<in> set (zip (map unique_request_id batch) (zip (map doc_id batch) ys))"
    from zip_ids[OF this] obtain r where r: "r \<in> set batch" "fst t = unique_request_id r" "fst (snd t) = doc_id r"
      by blast
    with assms have "fst t < length ol \<Longrightarrow> fst (snd t) = origin_doc_id (ol ! fst t)"
      by (simp add: sb)
    then show "route ol s t \<noteq> Inl AssertionError" by (rule route_no_assertion)
  qed
  have "\<exists>ys. batch_stream f d n N seen step batch
          = zip (map unique_request_id batch) (zip (map doc_id batch) ys)"
    unfolding batch_stream_def Let_def by (rule exI) (rule refl)
  then obtain ys where "batch_stream f d n N seen step batch
          = zip (map unique_request_id batch) (zip (map doc_id batch) ys)" ..
  with nz[of ys] have "foldM (route ol) q (batch_stream f d n N seen step batch) \<noteq> Inl AssertionError"
    by simp
  then show ?thesis
    unfolding st sb exec_batch_stream[where model = model and rt = rt and f = f, OF Some]
    by (auto split: sum.splits)
qed

lemma exec_type_no_assertion:
  assumes "\<forall>xs p. set (pad xs p) \<subseteq> set xs"
    and "\<forall>r \<in> set (snd tr). unique_request_id r < length (dd_get os (fst tr))
             \<longrightarrow> doc_id r = origin_doc_id (dd_get os (fst tr) ! unique_request_id r)"
  shows "exec_type model pad W B os q tr \<noteq> Inl AssertionError"
proof -
  obtain rt reqs where tr: "tr = (rt, reqs)" by (cases tr) auto
  have nb: "foldM (exec_batch model d rt n N (dd_get os rt)) s (enumerate 0 (prepare_data_loader pad W B reqs))
          \<noteq> Inl AssertionError" for d n N s
  proof (rule foldM_never)
    fix s' sbatch
    assume "sbatch \<in> set (enumerate 0 (prepare_data_loader pad W B reqs))"
    then have "snd sbatch \<in> set (prepare_data_loader pad W B reqs)" by (rule snd_in_enumerate)
    from set_prepare_data_loader[OF assms(1) this] assms(2)
    have "\<forall>r \<in> set (snd sbatch). unique_request_id r < length (dd_get os rt)
             \<longrightarrow> doc_id r = origin_doc_id (dd_get os rt ! unique_request_id r)"
      by (auto simp add: tr)
    then show "exec_batch model d rt n N (dd_get os rt) s' sbatch \<noteq> Inl AssertionError"
      by (rule exec_batch_no_assertion)
  qed
  show ?thesis
    using nb[of "1 < W" "length (prepare_data_loader pad W B reqs)" "length reqs" "(0, q)"]
    by (auto simp add: exec_type_def tr Let_def split: sum.splits)
qed

lemma execute_no_assertion:
  assumes "\<forall>xs p. set (pad xs p) \<subseteq> set xs"
    and "\<forall>tr \<in> set requests. \<forall>r \<in> set (snd tr). unique_request_id r < length (dd_get os (fst tr))
             \<longrightarrow> doc_id r = origin_doc_id (dd_get os (fst tr) ! unique_request_id r)"
  shows "execute model pad W B (requests, os) \<noteq> Inl AssertionError"
proof -
  have "foldM (exec_type model pad W B os) [] requests \<noteq> Inl AssertionError"
    using assms by (intro foldM_never exec_type_no_assertion) simp_all
  then show ?thesis by (simp add: execute_def)
qed

lemma multiplex_consistent:
  assumes "tr \<in> set (fst (multiplex tasks))" and "r \<in> set (snd tr)"
  shows "unique_request_id r < length (dd_get (snd (multiplex tasks)) (fst tr))"
    and "doc_id r = origin_doc_id (dd_get (snd (multiplex tasks)) (fst tr) ! unique_request_id r)"
proof -
  from assms(1) have g: "dd_get (fst (multiplex tasks)) (fst tr) = snd tr"
    using dd_get_item[OF multiplex_distinct, of "fst tr" "snd tr" tasks] by simp
  from assms(2) obtain j where j: "j < length (snd tr)" "snd tr ! j = r"
    by (auto simp add: in_set_conv_nth)
  from j(1) have jl: "j < length (dd_get (fst (multiplex tasks)) (fst tr))" by (simp add: g)
  note n = multiplex_nth[OF jl]
  have u: "unique_request_id r = j"
    using n(1) j(2) by (simp add: g ev_request_fields)
  show "unique_request_id r < length (dd_get (snd (multiplex tasks)) (fst tr))"
    using jl by (simp add: u multiplex_aligned)
  show "doc_id r = origin_doc_id (dd_get (snd (multiplex tasks)) (fst tr) ! unique_request_id r)"
    using n(1,2) j(2) by (simp add: u g ev_request_fields)
qed

lemma exec_type_mismatch:
  assumes "0 < B"
    and "\<forall>xs p. xs \<noteq> [] \<longrightarrow> length (pad xs p) = p" and "\<forall>xs p. set (pad xs p) \<subseteq> set xs"
    and "r \<in> set reqs" and "unique_request_id r < length (dd_get os rt)"
    and "doc_id r \<noteq> origin_doc_id (dd_get os rt ! unique_request_id r)"
  shows "isl (exec_type model pad W B os q (rt, reqs))"
proof (rule ccontr)
  assume "\<not> isl (exec_type model pad W B os q (rt, reqs))"
  then obtain q' where "exec_type model pad W B os q (rt, reqs) = Inr q'"
    by (cases "exec_type model pad W B os q (rt, reqs)") auto
  from exec_type_stream[OF this]
  have ok: "foldM (route (dd_get os rt)) q (stream_of model pad W B (rt, reqs)) = Inr q'" by simp
  from stream_ids[OF assms(1,2,3), of model W "(rt, reqs)"] obtain extra where
    "map id2 (stream_of model pad W B (rt, reqs)) = map ids (reqs @ extra)" by auto
  then have "ids r \<in> set (map id2 (stream_of model pad W B (rt, reqs)))"
    using assms(4) by simp
  then obtain t where t: "t \<in> set (stream_of model pad W B (rt, reqs))" "id2 t = ids r"
    by auto
  obtain uid did resp where tt: "t = (uid, did, resp)" by (cases t) auto
  from t(2) have "uid = unique_request_id r" "did = doc_id r"
    by (simp_all add: tt id2_def ids_def)
  with assms(5,6) have "route (dd_get os rt) s t = Inl AssertionError" for s
    by (simp add: tt route_mismatch)
  then have "isl (route (dd_get os rt) s t)" for s by simp
  with t(1) have "isl (foldM (route (dd_get os rt)) q (stream_of model pad W B (rt, reqs)))"
    by (rule foldM_fails)
  with ok show False by simp
qed

lemma execute_mismatch:
  assumes "\<forall>xs p. xs \<noteq> [] \<longrightarrow> length (pad xs p) = p" and "\<forall>xs p. set (pad xs p) \<subseteq> set xs"
    and "(rt, reqs) \<in> set requests"
    and "r \<in> set reqs" and "unique_request_id r < length (dd_get os rt)"
    and "doc_id r \<noteq> origin_doc_id (dd_get os rt ! unique_request_id r)"
  shows "isl (execute model pad W B (requests, os))"
proof (cases "B = 0")
  case True
  from assms(3) have "requests \<noteq> []" by auto
  with True show ?thesis by (simp add: execute_def)
next
  case False
  then have B: "0 < B" by simp
  have "isl (exec_type model pad W B os q (rt, reqs))" for q
    by (rule exec_type_mismatch[OF B assms(1,2,4,5,6)])
  with assms(3) have "isl (foldM (exec_type model pad W B os) [] requests)"
    by (rule foldM_fails)
  with False show ?thesis by (simp add: execute_def)
qed

lemma execute_mismatch_exact:
  assumes "0 < B" and "W \<le> 1" and "model rt = Some f"
    and "execute model pad W B (earlier, os) = Inr queue0"
    and "foldM (route (dd_get os rt)) queue0 (map (triple f) before) = Inr queue1"
    and "unique_request_id r < length (dd_get os rt)"
    and "doc_id r \<noteq> origin_doc_id (dd_get os rt ! unique_request_id r)"
  shows "execute model pad W B (earlier @ (rt, before @ r # rest) # later, os) = Inl AssertionError"
proof -
  from assms(1,4) have e: "foldM (exec_type model pad W B os) [] earlier = Inr queue0"
    by (simp add: execute_def)
  have "route (dd_get os rt) queue1 (triple f r) = Inl AssertionError"
    using assms(6,7) by (simp add: triple_def route_mismatch)
  with assms(5) have "foldM (route (dd_get os rt)) queue0 (map (triple f) (before @ r # rest)) = Inl AssertionError"
    by (simp add: foldM_append)
  then have "exec_type model pad W B os queue0 (rt, before @ r # rest) = Inl AssertionError"
    by (simp only: exec_type_local[where model = model and rt = rt and f = f, OF assms(3,1,2)])
  with e have "foldM (exec_type model pad W B os) [] (earlier @ (rt, before @ r # rest) # later) = Inl AssertionError"
    by (simp add: foldM_append)
  with assms(1) show ?thesis by (simp add: execute_def)
qed

section \<open>Claims\<close>

text \<open>
  Claim C3. The stream consumed at construction is the list of its requests in the order
  of the three nested loops (\<open>events\<close>). For every request type, the list of requests
  is that stream restricted to the type, every request numbered with its position in that
  restriction, and the list of origin records is the same restriction, record by record:
  nothing is dropped, added or reordered, and the two lists are index-aligned and of
  equal length. A request that is consumed after the events \<open>before\<close> is given the number
  of requests of its type among them, and its origin record sits at that index. In terms
  of the tasks: the request at position \<open>i\<close> of the document at position \<open>did\<close> has
  an index \<open>j\<close> in the list of its type where it stands with \<open>doc_id = did\<close> and
  \<open>unique_request_id = j\<close>, and the origin record at \<open>j\<close> is the one of that request.
  The next request consumed is appended with the number of requests already grouped
  under its type.
\<close>

theorem multiplexer_index_aligned:
  "dd_get (fst (multiplex tasks)) rt
     = map ev_request (enumerate 0 (filter (\<lambda>e. ev_type e = rt) (events tasks)))
   \<and> dd_get (snd (multiplex tasks)) rt = map ev_origin (filter (\<lambda>e. ev_type e = rt) (events tasks))
   \<and> (\<forall>before e after. events tasks = before @ e # after \<longrightarrow>
        length (filter (\<lambda>x. ev_type x = ev_type e) before)
          < length (dd_get (fst (multiplex tasks)) (ev_type e))
      \<and> dd_get (fst (multiplex tasks)) (ev_type e) ! length (filter (\<lambda>x. ev_type x = ev_type e) before)
          = ev_request (length (filter (\<lambda>x. ev_type x = ev_type e) before), e)
      \<and> dd_get (snd (multiplex tasks)) (ev_type e) ! length (filter (\<lambda>x. ev_type x = ev_type e) before)
          = ev_origin e)
   \<and> (\<forall>key docs did d info reqs i.
        (key, docs) \<in> set tasks \<and> did < length docs \<and> docs ! did = (d, info, reqs) \<and> i < length reqs \<longrightarrow>
        (\<exists>j < length (dd_get (fst (multiplex tasks)) (request_type (reqs ! i))).
           dd_get (fst (multiplex tasks)) (request_type (reqs ! i)) ! j
             = (reqs ! i)\<lparr>doc_id := did, unique_request_id := j\<rparr>
         \<and> dd_get (snd (multiplex tasks)) (request_type (reqs ! i)) ! j
             = \<lparr>sub_index = i, task_template_key = key, origin_doc = d, origin_doc_id = did,
                fewshotex_logging_info = info, request_return_index = index (reqs ! i)\<rparr>))
   \<and> length (dd_get (fst (multiplex tasks)) rt) = length (dd_get (snd (multiplex tasks)) rt)
   \<and> (\<forall>j < length (dd_get (fst (multiplex tasks)) rt).
        unique_request_id (dd_get (fst (multiplex tasks)) rt ! j) = j
      \<and> request_type (dd_get (fst (multiplex tasks)) rt ! j) = rt
      \<and> origin_doc_id (dd_get (snd (multiplex tasks)) rt ! j) = doc_id (dd_get (fst (multiplex tasks)) rt ! j)
      \<and> request_return_index (dd_get (snd (multiplex tasks)) rt ! j) = index (dd_get (fst (multiplex tasks)) rt ! j))
   \<and> dd_get (fst (multiplex_req key' d' did' info' (multiplex tasks) (i', req))) (request_type req)
       = dd_get (fst (multiplex tasks)) (request_type req)
         @ [req\<lparr>doc_id := did',
                unique_request_id := length (dd_get (fst (multiplex tasks)) (request_type req))\<rparr>]
   \<and> dd_get (snd (multiplex_req key' d' did' info' (multiplex tasks) (i', req))) (request_type req)
       = dd_get (snd (multiplex tasks)) (request_type req)
         @ [\<lparr>sub_index = i', task_template_key = key', origin_doc = d', origin_doc_id = did',
             fewshotex_logging_info = info', request_return_index = index req\<rparr>]"
proof -
  have closed: "dd_get (fst (multiplex tasks)) rt
     = map ev_request (enumerate 0 (filter (\<lambda>e. ev_type e = rt) (events tasks)))"
    "dd_get (snd (multiplex tasks)) rt = map ev_origin (filter (\<lambda>e. ev_type e = rt) (events tasks))"
    by (rule multiplex_lists)+
  have count: "\<forall>before e after. events tasks = before @ e # after \<longrightarrow>
        length (filter (\<lambda>x. ev_type x = ev_type e) before)
          < length (dd_get (fst (multiplex tasks)) (ev_type e))
      \<and> dd_get (fst (multiplex tasks)) (ev_type e) ! length (filter (\<lambda>x. ev_type x = ev_type e) before)
          = ev_request (length (filter (\<lambda>x. ev_type x = ev_type e) before), e)
      \<and> dd_get (snd (multiplex tasks)) (ev_type e) ! length (filter (\<lambda>x. ev_type x = ev_type e) before)
          = ev_origin e"
  proof (intro allI impI)
    fix before e after assume sp: "events tasks = before @ e # after"
    from multiplex_count[OF sp]
    show "length (filter (\<lambda>x. ev_type x = ev_type e) before)
          < length (dd_get (fst (multiplex tasks)) (ev_type e))
      \<and> dd_get (fst (multiplex tasks)) (ev_type e) ! length (filter (\<lambda>x. ev_type x = ev_type e) before)
          = ev_request (length (filter (\<lambda>x. ev_type x = ev_type e) before), e)
      \<and> dd_get (snd (multiplex tasks)) (ev_type e) ! length (filter (\<lambda>x. ev_type x = ev_type e) before)
          = ev_origin e"
      by (intro conjI)
  qed
  have slot: "\<forall>key docs did d info reqs i.
        (key, docs) \<in> set tasks \<and> did < length docs \<and> docs ! did = (d, info, reqs) \<and> i < length reqs \<longrightarrow>
        (\<exists>j < length (dd_get (fst (multiplex tasks)) (request_type (reqs ! i))).
           dd_get (fst (multiplex tasks)) (request_type (reqs ! i)) ! j
             = (reqs ! i)\<lparr>doc_id := did, unique_request_id := j\<rparr>
         \<and> dd_get (snd (multiplex tasks)) (request_type (reqs ! i)) ! j
             = \<lparr>sub_index = i, task_template_key = key, origin_doc = d, origin_doc_id = did,
                fewshotex_logging_info = info, request_return_index = index (reqs ! i)\<rparr>)"
  proof (intro allI impI)
    fix key docs did d info reqs i
    assume a: "(key, docs) \<in> set tasks \<and> did < length docs \<and> docs ! did = (d, info, reqs) \<and> i < length reqs"
    then have a1: "(key, docs) \<in> set tasks" and a2: "did < length docs"
      and a3: "docs ! did = (d, info, reqs)" and a4: "i < length reqs" by simp_all
    show "\<exists>j < length (dd_get (fst (multiplex tasks)) (request_type (reqs ! i))).
           dd_get (fst (multiplex tasks)) (request_type (reqs ! i)) ! j
             = (reqs ! i)\<lparr>doc_id := did, unique_request_id := j\<rparr>
         \<and> dd_get (snd (multiplex tasks)) (request_type (reqs ! i)) ! j
             = \<lparr>sub_index = i, task_template_key = key, origin_doc = d, origin_doc_id = did,
                fewshotex_logging_info = info, request_return_index = index (reqs ! i)\<rparr>"
      by (rule multiplex_slot[OF a1 a2 a3 a4])
  qed
  have len: "length (dd_get (fst (multiplex tasks)) rt) = length (dd_get (snd (multiplex tasks)) rt)"
    by (rule multiplex_aligned)
  have fields: "\<forall>j < length (dd_get (fst (multiplex tasks)) rt).
        unique_request_id (dd_get (fst (multiplex tasks)) rt ! j) = j
      \<and> request_type (dd_get (fst (multiplex tasks)) rt ! j) = rt
      \<and> origin_doc_id (dd_get (snd (multiplex tasks)) rt ! j) = doc_id (dd_get (fst (multiplex tasks)) rt ! j)
      \<and> request_return_index (dd_get (snd (multiplex tasks)) rt ! j) = index (dd_get (fst (multiplex tasks)) rt ! j)"
  proof (intro allI impI)
    fix j assume j: "j < length (dd_get (fst (multiplex tasks)) rt)"
    note n = multiplex_nth[OF j]
    show "unique_request_id (dd_get (fst (multiplex tasks)) rt ! j) = j
      \<and> request_type (dd_get (fst (multiplex tasks)) rt ! j) = rt
      \<and> origin_doc_id (dd_get (snd (multiplex tasks)) rt ! j) = doc_id (dd_get (fst (multiplex tasks)) rt ! j)
      \<and> request_return_index (dd_get (snd (multiplex tasks)) rt ! j) = index (dd_get (fst (multiplex tasks)) rt ! j)"
      by (simp add: n ev_request_fields)
  qed
  obtain rs os where st: "multiplex tasks = (rs, os)" by (cases "multiplex tasks") auto
  have l: "length (dd_get os (request_type req)) = length (dd_get rs (request_type req))"
    using multiplex_aligned[of tasks "request_type req"] by (simp add: st)
  have next1: "dd_get (fst (multiplex_req key' d' did' info' (multiplex tasks) (i', req))) (request_type req)
       = dd_get (fst (multiplex tasks)) (request_type req)
         @ [req\<lparr>doc_id := did',
                unique_request_id := length (dd_get (fst (multiplex tasks)) (request_type req))\<rparr>]"
    by (simp add: st multiplex_req_def Let_def dd_get_dd_append l)
  have next2: "dd_get (snd (multiplex_req key' d' did' info' (multiplex tasks) (i', req))) (request_type req)
       = dd_get (snd (multiplex tasks)) (request_type req)
         @ [\<lparr>sub_index = i', task_template_key = key', origin_doc = d', origin_doc_id = did',
             fewshotex_logging_info = info', request_return_index = index req\<rparr>]"
    by (simp add: st multiplex_req_def Let_def dd_get_dd_append)
  from closed count slot len fields next1 next2 show ?thesis by (intro conjI)
qed

theorem multiplexer_index_aligned_witness:
  "events example_tasks
     = [(''rte+imply'', ''doc a'', 0, ''shots a'', 0, mk_request ''loglikelihood'' 10 (Some 0)),
        (''rte+imply'', ''doc a'', 0, ''shots a'', 1, mk_request ''loglikelihood'' 11 (Some 0)),
        (''rte+imply'', ''doc b'', 1, ''shots b'', 0, mk_request ''loglikelihood'' 12 (Some 0))]
       @ (''rte+imply'', ''doc b'', 1, ''shots b'', 1, mk_request ''loglikelihood'' 13 (Some 0))
       # [(''rte+imply'', ''doc c'', 2, ''shots c'', 0, mk_request ''loglikelihood'' 14 None)]
   \<and> dd_get (fst (multiplex example_tasks)) ''loglikelihood'' ! 3
       = (mk_request ''loglikelihood'' 13 (Some 0))\<lparr>doc_id := 1, unique_request_id := 3\<rparr>
   \<and> dd_get (snd (multiplex example_tasks)) ''loglikelihood'' ! 3
       = \<lparr>sub_index = 1, task_template_key = ''rte+imply'', origin_doc = ''doc b'', origin_doc_id = 1,
          fewshotex_logging_info = ''shots b'', request_return_index = Some 0\<rparr>
   \<and> length (dd_get (fst (multiplex example_tasks)) ''loglikelihood'') = 5
   \<and> length (dd_get (snd (multiplex example_tasks)) ''loglikelihood'') = 5"
proof -
  let ?before = "[(''rte+imply'', ''doc a'', 0, ''shots a'', 0, mk_request ''loglikelihood'' (10::nat) (Some 0)),
        (''rte+imply'', ''doc a'', 0, ''shots a'', 1, mk_request ''loglikelihood'' 11 (Some 0)),
        (''rte+imply'', ''doc b'', 1, ''shots b'', 0, mk_request ''loglikelihood'' 12 (Some 0))]"
  let ?e = "(''rte+imply'', ''doc b'', 1::nat, ''shots b'', 1::nat, mk_request ''loglikelihood'' (13::nat) (Some 0))"
  let ?after = "[(''rte+imply'', ''doc c'', 2::nat, ''shots c'', 0::nat, mk_request ''loglikelihood'' (14::nat) None)]"
  have ev: "events example_tasks = ?before @ ?e # ?after"
    by (simp add: events_def task_events_def doc_events_def example_tasks_def enumerate_eq_zip upt_rec)
  have t: "ev_type ?e = ''loglikelihood''"
    by (simp add: ev_type_def mk_request_def)
  have n: "length (filter (\<lambda>x. ev_type x = ''loglikelihood'') ?before) = 3"
    by (simp add: ev_type_def mk_request_def)
  have r: "ev_request (3, ?e) = (mk_request ''loglikelihood'' 13 (Some 0))\<lparr>doc_id := 1, unique_request_id := 3\<rparr>"
    by (simp add: ev_request_def)
  have o: "ev_origin ?e = \<lparr>sub_index = 1, task_template_key = ''rte+imply'', origin_doc = ''doc b'', origin_doc_id = 1,
          fewshotex_logging_info = ''shots b'', request_return_index = Some 0\<rparr>"
    by (simp add: ev_origin_def mk_request_def)
  have five: "length (filter (\<lambda>e. ev_type e = ''loglikelihood'') (events example_tasks)) = 5"
    unfolding ev by (simp add: ev_type_def mk_request_def)
  note th = multiplexer_index_aligned[of example_tasks "''loglikelihood''"]
  have c1: "dd_get (fst (multiplex example_tasks)) ''loglikelihood''
     = map ev_request (enumerate 0 (filter (\<lambda>e. ev_type e = ''loglikelihood'') (events example_tasks)))"
    by (rule th[THEN conjunct1])
  have c2: "dd_get (snd (multiplex example_tasks)) ''loglikelihood''
     = map ev_origin (filter (\<lambda>e. ev_type e = ''loglikelihood'') (events example_tasks))"
    by (rule th[THEN conjunct2, THEN conjunct1])
  note c3 = th[THEN conjunct2, THEN conjunct2, THEN conjunct1, rule_format, OF ev]
  from c3 have "dd_get (fst (multiplex example_tasks)) (ev_type ?e) ! length (filter (\<lambda>x. ev_type x = ev_type ?e) ?before)
          = ev_request (length (filter (\<lambda>x. ev_type x = ev_type ?e) ?before), ?e)
      \<and> dd_get (snd (multiplex example_tasks)) (ev_type ?e) ! length (filter (\<lambda>x. ev_type x = ev_type ?e) ?before)
          = ev_origin ?e"
    by simp
  then have at3: "dd_get (fst (multiplex example_tasks)) ''loglikelihood'' ! 3
       = (mk_request ''loglikelihood'' 13 (Some 0))\<lparr>doc_id := 1, unique_request_id := 3\<rparr>"
    "dd_get (snd (multiplex example_tasks)) ''loglikelihood'' ! 3
       = \<lparr>sub_index = 1, task_template_key = ''rte+imply'', origin_doc = ''doc b'', origin_doc_id = 1,
          fewshotex_logging_info = ''shots b'', request_return_index = Some 0\<rparr>"
    unfolding t n r o by simp_all
  have l1: "length (dd_get (fst (multiplex example_tasks)) ''loglikelihood'') = 5"
    unfolding c1 using five by simp
  have l2: "length (dd_get (snd (multiplex example_tasks)) ''loglikelihood'') = 5"
    unfolding c2 using five by simp
  from ev at3 l1 l2 show ?thesis by (intro conjI)
qed


text \<open>
  Claim C4. In every bucket the reconciler keeps, for each dispatch id, exactly the entry
  seen first and drops the later ones; so a bucket to which an entry is appended twice
  gives the same result bundle and logging record as the bucket to which it is appended
  once, also when other entries arrive between the two copies.
\<close>

theorem dedup_first_seen_idempotent:
  "filter (\<lambda>x. entry_uid x = u) (dedup per_doc_requests)
     = (case find (\<lambda>x. entry_uid x = u) per_doc_requests of None \<Rightarrow> [] | Some x \<Rightarrow> [x])
   \<and> per_doc_results (per_doc_requests @ [e, e]) = per_doc_results (per_doc_requests @ [e])
   \<and> fewshot_logging_info (per_doc_requests @ [e, e]) = fewshot_logging_info (per_doc_requests @ [e])
   \<and> per_doc_results (per_doc_requests @ e # later @ e # rest)
       = per_doc_results (per_doc_requests @ e # later @ rest)"
proof (intro conjI)
  show "filter (\<lambda>x. entry_uid x = u) (dedup per_doc_requests)
     = (case find (\<lambda>x. entry_uid x = u) per_doc_requests of None \<Rightarrow> [] | Some x \<Rightarrow> [x])"
    by (simp add: dedup_first_seen first_seen_filter)
  have twice: "dedup (per_doc_requests @ [e, e]) = dedup (per_doc_requests @ [e])"
    using dedup_duplicate[of per_doc_requests e "[]" "[]"] by simp
  show "per_doc_results (per_doc_requests @ [e, e]) = per_doc_results (per_doc_requests @ [e])"
    by (simp add: per_doc_results_def sorted_bucket_def twice)
  show "fewshot_logging_info (per_doc_requests @ [e, e]) = fewshot_logging_info (per_doc_requests @ [e])"
    by (simp add: fewshot_logging_info_def sorted_bucket_def twice)
  show "per_doc_results (per_doc_requests @ e # later @ e # rest)
       = per_doc_results (per_doc_requests @ e # later @ rest)"
    by (simp add: per_doc_results_def sorted_bucket_def dedup_duplicate)
qed

text \<open>
  Claim C5. After deduplication the entries of a bucket are sorted by their position
  \<open>i\<close> in ascending order and the result bundle lists the responses in that order. The
  bundle does not depend on the order of arrival: two buckets with the same set of
  entries, in which every entry has its own position and its own dispatch id, give the
  same bundle and logging record. Entries arriving with the positions 2, 0, 1 give the
  bundle in the order 0, 1, 2, and the logging record is that of the first sorted entry.
\<close>

theorem bucket_sorted_by_sub_index:
  fixes per_doc_requests arrived :: "('r, 'm) entry list"
    and r0 r1 r2 :: "'r response" and m0 m1 m2 :: 'm
  shows "sorted (map fst (sorted_bucket per_doc_requests))
   \<and> mset (sorted_bucket per_doc_requests) = mset (dedup per_doc_requests)
   \<and> per_doc_results per_doc_requests = map (\<lambda>x. fst (snd x)) (sorted_bucket per_doc_requests)
   \<and> (set arrived = set per_doc_requests \<and> inj_on fst (set per_doc_requests)
        \<and> inj_on entry_uid (set per_doc_requests)
      \<longrightarrow> per_doc_results arrived = per_doc_results per_doc_requests
          \<and> fewshot_logging_info arrived = fewshot_logging_info per_doc_requests)
   \<and> per_doc_results [(2, r2, m2, 7), (0, r0, m0, 5), (1, r1, m1, 6)] = [r0, r1, r2]
   \<and> (per_doc_requests \<noteq> [] \<longrightarrow>
        fewshot_logging_info per_doc_requests
          = Inr (fst (snd (snd (hd (sorted_bucket per_doc_requests))))))"
proof -
  have a: "sorted (map fst (sorted_bucket per_doc_requests))"
    by (simp add: sorted_bucket_def)
  have b: "mset (sorted_bucket per_doc_requests) = mset (dedup per_doc_requests)"
    by (simp add: sorted_bucket_def)
  have c: "per_doc_results per_doc_requests = map (\<lambda>x. fst (snd x)) (sorted_bucket per_doc_requests)"
    by (simp add: per_doc_results_def)
  note d = bucket_order_free[of arrived per_doc_requests]
  note e = bucket_scrambled[of r2 m2 r0 m0 r1 m1]
  note f = bucket_metadata[of per_doc_requests]
  from a b c d e f show ?thesis by blast
qed


theorem bucket_sorted_by_sub_index_witness:
  "set (rev example_bucket) = set example_bucket \<and> inj_on fst (set example_bucket)
   \<and> inj_on entry_uid (set example_bucket) \<and> example_bucket \<noteq> []
   \<and> per_doc_results (rev example_bucket) = [Component 10, Component 20, Component 30]
   \<and> fewshot_logging_info example_bucket = Inr ''shots''"
proof -
  have h1: "set (rev example_bucket) = set example_bucket" by simp
  have h2: "inj_on fst (set example_bucket)" by (simp add: example_bucket_def)
  have h3: "inj_on entry_uid (set example_bucket)" by (simp add: example_bucket_def)
  have h4: "example_bucket \<noteq> []" by (simp add: example_bucket_def)
  have v: "per_doc_results example_bucket = [Component 10, Component 20, Component 30]"
    by (simp add: example_bucket_def per_doc_results_def sorted_bucket_def dedup_def dedup_step_def)
  have w: "fst (snd (snd (hd (sorted_bucket example_bucket)))) = ''shots''"
    by (simp add: example_bucket_def sorted_bucket_def dedup_def dedup_step_def)
  from bucket_sorted_by_sub_index[of example_bucket "rev example_bucket" "Component 30" "''shots''"
      "Component 10" "''shots''" "Component 20" "''shots''"] h1 h2 h3 h4 v w
  show ?thesis by simp
qed

text \<open>
  Claim C6. For every item \<^verbatim>\<open>(unique_request_id, doc_id, response)\<close> line 346 compares
  the document id of the batch stream with the one stored in the origin record at index
  \<open>unique_request_id\<close>, and a mismatch raises \<^verbatim>\<open>AssertionError\<close>. In a run: when a
  request carries a document id that differs from the one of its origin record, a
  single-process run in which the earlier request types and the earlier requests of its
  type went through ends with \<^verbatim>\<open>AssertionError\<close>; and every run, single-process or
  padded multi-worker, ends with an exception. When the \<open>doc_id\<close> field of every
  request equals the document id of its origin record, no run ends with
  \<^verbatim>\<open>AssertionError\<close>, whatever the backend, the batch size and the number of workers;
  the lists that the multiplexer builds satisfy this precondition.
\<close>

theorem doc_id_assertion:
  "(uid < length origin_list \<and> did \<noteq> origin_doc_id (origin_list ! uid)
      \<longrightarrow> route origin_list queue (uid, did, response) = Inl AssertionError)
   \<and> (0 < B \<and> W \<le> 1 \<and> model rt = Some f
        \<and> execute model pad W B (earlier, requests_origin) = Inr queue0
        \<and> foldM (route (dd_get requests_origin rt)) queue0 (map (triple f) before) = Inr queue1
        \<and> unique_request_id r < length (dd_get requests_origin rt)
        \<and> doc_id r \<noteq> origin_doc_id (dd_get requests_origin rt ! unique_request_id r)
      \<longrightarrow> execute model pad W B (earlier @ (rt, before @ r # rest) # later, requests_origin)
            = Inl AssertionError)
   \<and> ((\<forall>xs p. xs \<noteq> [] \<longrightarrow> length (pad xs p) = p) \<and> (\<forall>xs p. set (pad xs p) \<subseteq> set xs)
        \<and> (rt, reqs) \<in> set requests \<and> r \<in> set reqs
        \<and> unique_request_id r < length (dd_get requests_origin rt)
        \<and> doc_id r \<noteq> origin_doc_id (dd_get requests_origin rt ! unique_request_id r)
      \<longrightarrow> isl (execute model pad W B (requests, requests_origin)))
   \<and> ((\<forall>xs p. set (pad xs p) \<subseteq> set xs)
        \<and> (\<forall>tr \<in> set requests. \<forall>r \<in> set (snd tr).
              unique_request_id r < length (dd_get requests_origin (fst tr))
              \<longrightarrow> doc_id r = origin_doc_id (dd_get requests_origin (fst tr) ! unique_request_id r))
      \<longrightarrow> execute model pad W B (requests, requests_origin) \<noteq> Inl AssertionError)
   \<and> ((\<forall>xs p. set (pad xs p) \<subseteq> set xs)
      \<longrightarrow> execute model pad W B (multiplex tasks) \<noteq> Inl AssertionError)"
proof (intro conjI impI)
  assume "uid < length origin_list \<and> did \<noteq> origin_doc_id (origin_list ! uid)"
  then show "route origin_list queue (uid, did, response) = Inl AssertionError"
    by (simp add: route_mismatch)
next
  assume a: "0 < B \<and> W \<le> 1 \<and> model rt = Some f
        \<and> execute model pad W B (earlier, requests_origin) = Inr queue0
        \<and> foldM (route (dd_get requests_origin rt)) queue0 (map (triple f) before) = Inr queue1
        \<and> unique_request_id r < length (dd_get requests_origin rt)
        \<and> doc_id r \<noteq> origin_doc_id (dd_get requests_origin rt ! unique_request_id r)"
  then have 1: "0 < B" and 2: "W \<le> 1" and 3: "model rt = Some f"
    and 4: "execute model pad W B (earlier, requests_origin) = Inr queue0"
    and 5: "foldM (route (dd_get requests_origin rt)) queue0 (map (triple f) before) = Inr queue1"
    and 6: "unique_request_id r < length (dd_get requests_origin rt)"
    and 7: "doc_id r \<noteq> origin_doc_id (dd_get requests_origin rt ! unique_request_id r)"
    by simp_all
  show "execute model pad W B (earlier @ (rt, before @ r # rest) # later, requests_origin)
            = Inl AssertionError"
    by (rule execute_mismatch_exact[where f = f, OF 1 2 3 4 5 6 7])
next
  assume a: "(\<forall>xs p. xs \<noteq> [] \<longrightarrow> length (pad xs p) = p) \<and> (\<forall>xs p. set (pad xs p) \<subseteq> set xs)
        \<and> (rt, reqs) \<in> set requests \<and> r \<in> set reqs
        \<and> unique_request_id r < length (dd_get requests_origin rt)
        \<and> doc_id r \<noteq> origin_doc_id (dd_get requests_origin rt ! unique_request_id r)"
  then have 1: "\<forall>xs p. xs \<noteq> [] \<longrightarrow> length (pad xs p) = p" and 2: "\<forall>xs p. set (pad xs p) \<subseteq> set xs"
    and 3: "(rt, reqs) \<in> set requests" and 4: "r \<in> set reqs"
    and 5: "unique_request_id r < length (dd_get requests_origin rt)"
    and 6: "doc_id r \<noteq> origin_doc_id (dd_get requests_origin rt ! unique_request_id r)"
    by simp_all
  show "isl (execute model pad W B (requests, requests_origin))"
    by (rule execute_mismatch[OF 1 2 3 4 5 6])
next
  assume a: "(\<forall>xs p. set (pad xs p) \<subseteq> set xs)
        \<and> (\<forall>tr \<in> set requests. \<forall>r \<in> set (snd tr).
              unique_request_id r < length (dd_get requests_origin (fst tr))
              \<longrightarrow> doc_id r = origin_doc_id (dd_get requests_origin (fst tr) ! unique_request_id r))"
  then have 1: "\<forall>xs p. set (pad xs p) \<subseteq> set xs"
    and 2: "\<forall>tr \<in> set requests. \<forall>r \<in> set (snd tr).
              unique_request_id r < length (dd_get requests_origin (fst tr))
              \<longrightarrow> doc_id r = origin_doc_id (dd_get requests_origin (fst tr) ! unique_request_id r)"
    by simp_all
  show "execute model pad W B (requests, requests_origin) \<noteq> Inl AssertionError"
    by (rule execute_no_assertion[OF 1 2])
next
  assume 1: "\<forall>xs p. set (pad xs p) \<subseteq> set xs"
  have 2: "\<forall>tr \<in> set (fst (multiplex tasks)). \<forall>r \<in> set (snd tr).
              unique_request_id r < length (dd_get (snd (multiplex tasks)) (fst tr))
              \<longrightarrow> doc_id r = origin_doc_id (dd_get (snd (multiplex tasks)) (fst tr) ! unique_request_id r)"
    using multiplex_consistent(2) by blast
  from execute_no_assertion[OF 1 2, of model W B]
  show "execute model pad W B (multiplex tasks) \<noteq> Inl AssertionError" by simp
qed


theorem doc_id_assertion_witness:
  "route (dd_get (snd (multiplex example_tasks)) ''loglikelihood'') example_queue (0, 1, [- 10, 1])
       = Inl AssertionError
   \<and> execute example_model pad_cycle 1 2 example_mismatch = Inl AssertionError
   \<and> isl (execute example_model pad_cycle 2 2 example_mismatch)
   \<and> execute example_model pad_cycle 2 2 (fst (multiplex example_tasks), snd (multiplex example_tasks))
       \<noteq> Inl AssertionError
   \<and> execute example_model pad_cycle 1 2 (multiplex example_tasks) \<noteq> Inl AssertionError"
proof -
  let ?ol = "dd_get (snd (multiplex example_tasks)) ''loglikelihood''"
  let ?os = "snd (multiplex example_tasks)"
  let ?L = "dd_get (fst (multiplex example_tasks)) ''loglikelihood''"
  let ?r = "(?L ! 2)\<lparr>doc_id := 0\<rparr>"
  let ?f = "\<lambda>a::nat. (- int a, 1::int)"
  let ?q1 = "[((''rte+imply'', 0::nat), [(0::nat, Component (- 10 :: int), ''shots a'', 0::nat),
                                         (1, Component (- 11), ''shots a'', 1)])]"
  have a1: "(0::nat) < length ?ol \<and> (1::nat) \<noteq> origin_doc_id (?ol ! 0)" by code_simp
  have c1: "route ?ol example_queue (0, 1, [- 10, 1]) = Inl AssertionError"
    using doc_id_assertion[where uid = 0 and origin_list = ?ol and did = 1 and queue = example_queue
        and response = "[- 10, 1]", THEN conjunct1] a1 by blast
  have b1: "(0::nat) < 2" "(1::nat) \<le> 1" by simp_all
  have b3: "example_model ''loglikelihood'' = Some ?f" by (simp add: example_model_def)
  have b4: "execute example_model pad_cycle 1 2 ([], ?os) = Inr []" by (simp add: execute_def)
  have b5: "foldM (route ?ol) [] (map (triple ?f) (take 2 ?L)) = Inr ?q1" by code_simp
  have b6: "unique_request_id ?r < length ?ol" by code_simp
  have b7: "doc_id ?r \<noteq> origin_doc_id (?ol ! unique_request_id ?r)" by code_simp
  have "execute example_model pad_cycle 1 2
          ([] @ (''loglikelihood'', take 2 ?L @ ?r # drop 3 ?L) # [], ?os) = Inl AssertionError"
    using doc_id_assertion[where B = 2 and W = 1 and model = example_model and rt = "''loglikelihood''"
        and f = ?f and pad = pad_cycle and earlier = "[]" and requests_origin = ?os and ?queue0.0 = "[]"
        and before = "take 2 ?L" and ?queue1.0 = ?q1 and r = ?r and rest = "drop 3 ?L" and later = "[]",
        THEN conjunct2, THEN conjunct1] b1 b3 b4 b5 b6 b7
    by blast
  then have c2: "execute example_model pad_cycle 1 2 example_mismatch = Inl AssertionError"
    by (simp add: example_mismatch_def Let_def)
  have d3: "(''loglikelihood'', take 2 ?L @ ?r # drop 3 ?L)
              \<in> set [(''loglikelihood'', take 2 ?L @ ?r # drop 3 ?L)]" by simp
  have d4: "?r \<in> set (take 2 ?L @ ?r # drop 3 ?L)" by simp
  have "isl (execute example_model pad_cycle 2 2
          ([(''loglikelihood'', take 2 ?L @ ?r # drop 3 ?L)], ?os))"
    using doc_id_assertion[where pad = pad_cycle and rt = "''loglikelihood''"
        and reqs = "take 2 ?L @ ?r # drop 3 ?L" and r = ?r and requests_origin = ?os
        and requests = "[(''loglikelihood'', take 2 ?L @ ?r # drop 3 ?L)]"
        and model = example_model and W = 2 and B = 2,
        THEN conjunct2, THEN conjunct2, THEN conjunct1]
      pad_cycle_ok(1)[where 'b = "nat Request"] pad_cycle_ok(2)[where 'b = "nat Request"] d3 d4 b6 b7
    by blast
  then have c3: "isl (execute example_model pad_cycle 2 2 example_mismatch)"
    by (simp add: example_mismatch_def Let_def)
  have e2: "\<forall>tr \<in> set (fst (multiplex example_tasks)). \<forall>r \<in> set (snd tr).
              unique_request_id r < length (dd_get ?os (fst tr))
              \<longrightarrow> doc_id r = origin_doc_id (dd_get ?os (fst tr) ! unique_request_id r)"
    by code_simp
  have c4: "execute example_model pad_cycle 2 2 (fst (multiplex example_tasks), ?os) \<noteq> Inl AssertionError"
    using doc_id_assertion[where pad = pad_cycle and requests = "fst (multiplex example_tasks)"
        and requests_origin = ?os and model = example_model and W = 2 and B = 2,
        THEN conjunct2, THEN conjunct2, THEN conjunct2, THEN conjunct1]
      pad_cycle_ok(2)[where 'b = "nat Request"] e2
    by blast
  have c5: "execute example_model pad_cycle 1 2 (multiplex example_tasks) \<noteq> Inl AssertionError"
    using doc_id_assertion[where pad = pad_cycle and tasks = example_tasks
        and model = example_model and W = 1 and B = 2,
        THEN conjunct2, THEN conjunct2, THEN conjunct2, THEN conjunct2]
      pad_cycle_ok(2)[where 'b = "nat Request"]
    by blast
  from c1 c2 c3 c4 c5 show ?thesis by (intro conjI)
qed

text \<open>
  Claim C7, as the code has it. Grouping has no registry of request types: a request
  whose type the backend lacks is grouped like any other and opens the list of its type.
  The run fails later: executing the first batch of that type raises
  \<^verbatim>\<open>AttributeError\<close> whatever the queue holds, so the run as a whole ends with an
  exception.
\<close>

theorem unregistered_type_fails_at_dispatch:
  assumes "(key, docs) \<in> set tasks" and "(d, info, reqs) \<in> set docs" and "req \<in> set reqs"
    and "model (request_type req) = None"
  shows "dd_get (fst (multiplex tasks)) (request_type req) \<noteq> []
    \<and> (0 < B \<longrightarrow> exec_type model pad W B (snd (multiplex tasks)) queue
           (request_type req, dd_get (fst (multiplex tasks)) (request_type req))
         = Inl (AttributeError (request_type req)))
    \<and> isl (execute model pad W B (multiplex tasks))"
proof -
  note g = grouped_nonempty[OF assms(1,2,3)]
  have "0 < B \<Longrightarrow> exec_type model pad W B (snd (multiplex tasks)) queue
           (request_type req, dd_get (fst (multiplex tasks)) (request_type req))
         = Inl (AttributeError (request_type req))"
    using g by (intro exec_type_no_capability assms(4)) simp_all
  moreover have "isl (execute model pad W B (multiplex tasks))"
    using g assms(4) by (rule execute_no_capability)
  ultimately show ?thesis using g by blast
qed

theorem unregistered_type_fails_at_dispatch_witness:
  "example_model ''perplexity'' = None
   \<and> dd_get (fst (multiplex example_unregistered)) ''perplexity'' \<noteq> []
   \<and> exec_type example_model pad_cycle 1 2 (snd (multiplex example_unregistered)) []
        (''perplexity'', dd_get (fst (multiplex example_unregistered)) ''perplexity'')
      = Inl (AttributeError ''perplexity'')
   \<and> isl (execute example_model pad_cycle 1 2 (multiplex example_unregistered))"
proof -
  have 1: "(''wic+prompt'', [(''doc d'', ''shots d'', [mk_request ''perplexity'' 15 None])])
             \<in> set example_unregistered"
    by (simp add: example_unregistered_def)
  have 2: "(''doc d'', ''shots d'', [mk_request ''perplexity'' (15::nat) None])
             \<in> set [(''doc d'', ''shots d'', [mk_request ''perplexity'' 15 None])]"
    by simp
  have 3: "mk_request ''perplexity'' (15::nat) None \<in> set [mk_request ''perplexity'' 15 None]"
    by simp
  have 4: "example_model (request_type (mk_request ''perplexity'' (15::nat) None)) = None"
    by (simp add: example_model_def mk_request_def)
  have 5: "request_type (mk_request ''perplexity'' (15::nat) None) = ''perplexity''"
    by (simp add: mk_request_def)
  from unregistered_type_fails_at_dispatch[where model = example_model and B = 2
      and pad = pad_cycle and W = 1 and queue = "[]", OF 1 2 3 4] 4
  show ?thesis by (simp add: 5)
qed

text \<open>
  Claim C7 as stated fails: in the run below the request of type \<^verbatim>\<open>perplexity\<close> is
  grouped and given the id 0, all batches of type \<^verbatim>\<open>loglikelihood\<close> are executed and
  routed, and only then does the run end with \<^verbatim>\<open>AttributeError\<close>.
\<close>

theorem unregistered_type_grouped_counterexample:
  "map fst (fst (multiplex example_unregistered)) = [''loglikelihood'', ''perplexity'']
   \<and> map unique_request_id (dd_get (fst (multiplex example_unregistered)) ''perplexity'') = [0]
   \<and> exec_type example_model pad_cycle 1 2 (snd (multiplex example_unregistered)) []
        (''loglikelihood'', dd_get (fst (multiplex example_unregistered)) ''loglikelihood'')
      = Inr [((''rte+imply'', 0), [(0, Component (- 10), ''shots a'', 0), (1, Component (- 11), ''shots a'', 1)]),
             ((''rte+imply'', 1), [(0, Component (- 12), ''shots b'', 2), (1, Component (- 13), ''shots b'', 3)]),
             ((''rte+imply'', 2), [(0, Whole [- 14, 1], ''shots c'', 4)])]
   \<and> execute example_model pad_cycle 1 2 (multiplex example_unregistered)
      = Inl (AttributeError ''perplexity'')"
  by code_simp

text \<open>
  Claim C1, on the code. Five requests, batch size 2, two workers: the last gathered
  batch holds request 4 and three padding copies. Line 329 slices the pair of gathered
  streams, not the streams, and line 332 counts 2 for the first batch, so the slice bound
  is \<open>5 - 2 = 3\<close> and nothing is removed: all four items of the last batch are routed,
  eight in all, where the claim leaves \<open>5 - 4 = 1\<close>. With batch size 1 the bound on the
  last batch is \<open>5 - 4 = 1\<close>: the slice keeps the stream of log-probabilities and drops
  the stream of flags, and request 4 receives the log-probabilities of the whole batch
  \<open>[- 14, - 10]\<close> in place of its own pair \<open>[- 14, 1]\<close>.
\<close>

theorem final_batch_slice_on_stream_pair:
  "map (\<lambda>batch. map unique_request_id batch)
       (prepare_data_loader pad_cycle 2 2 (dd_get (fst (multiplex example_tasks)) ''loglikelihood''))
     = [[0, 1, 2, 3], [4, 0, 1, 2]]
   \<and> execute example_model pad_cycle 2 2 (multiplex example_tasks)
     = Inr [((''rte+imply'', 0),
             [(0, Component (- 10), ''shots a'', 0), (1, Component (- 11), ''shots a'', 1),
              (0, Component (- 10), ''shots a'', 0), (1, Component (- 11), ''shots a'', 1)]),
            ((''rte+imply'', 1),
             [(0, Component (- 12), ''shots b'', 2), (1, Component (- 13), ''shots b'', 3),
              (0, Component (- 12), ''shots b'', 2)]),
            ((''rte+imply'', 2), [(0, Whole [- 14, 1], ''shots c'', 4)])]
   \<and> map (\<lambda>batch. map unique_request_id batch)
       (prepare_data_loader pad_cycle 2 1 (dd_get (fst (multiplex example_tasks)) ''loglikelihood''))
     = [[0, 1], [2, 3], [4, 0]]
   \<and> execute example_model pad_cycle 2 1 (multiplex example_tasks)
     = Inr [((''rte+imply'', 0),
             [(0, Component (- 10), ''shots a'', 0), (1, Component (- 11), ''shots a'', 1)]),
            ((''rte+imply'', 1),
             [(0, Component (- 12), ''shots b'', 2), (1, Component (- 13), ''shots b'', 3)]),
            ((''rte+imply'', 2), [(0, Whole [- 14, - 10], ''shots c'', 4)])]"
  by code_simp

text \<open>
  Claim C8, as the code has it. Whether a standard error is reported depends on
  \<^verbatim>\<open>stderr_for_metric\<close> alone, not on the number of collected values. If the reduction
  function and the estimator (when there is one) do not raise on the value list, the
  aggregation step succeeds and reports the point estimate; without an estimator it
  writes no \<open>metric_stderr\<close> entry; with an estimator it applies it to the list,
  however short, and reports the result in both \<^verbatim>\<open>table_results\<close> and \<^verbatim>\<open>results\<close>.
\<close>

theorem stderr_reported_iff_estimator:
  assumes "aggregation key metric = Some reduce"
    and "\<forall>t. \<not> isl (reduce items t)"
    and "\<forall>stderr t. stderr_for_metric reduce (stderr_iters metric bootstrap_iters) = Some stderr
            \<longrightarrow> \<not> isl (stderr items t)"
  shows "\<exists>results' metric_results' s' v1 s1 v2 s2.
      aggregate_step split_key aggregation get_logging_info stderr_for_metric bootstrap_iters
         (results, metric_results, s) ((key, metric), items) = Inr (results', metric_results', s')
      \<and> reduce items s = Inr (v1, s1) \<and> reduce items s1 = Inr (v2, s2)
      \<and> table_lookup results' key metric = Some (Value (fst (projr (reduce items s))))
      \<and> (stderr_for_metric reduce (stderr_iters metric bootstrap_iters) = None \<longrightarrow>
           table_lookup results' key (metric @ ''_stderr'') = table_lookup results key (metric @ ''_stderr'')
           \<and> (metric @ ''_stderr'' \<notin> fst ` set (get_logging_info key) \<longrightarrow>
                map_of (last metric_results') (metric @ ''_stderr'') = None))
      \<and> (\<forall>stderr. stderr_for_metric reduce (stderr_iters metric bootstrap_iters) = Some stderr \<longrightarrow>
           (\<exists>e1 s3 e2 s4.
              stderr items s2 = Inr (e1, s3) \<and> stderr items s3 = Inr (e2, s4)
            \<and> table_lookup results' key (metric @ ''_stderr'') = Some (Value e1)
            \<and> map_of (last metric_results') (metric @ ''_stderr'') = Some (Value e2)))"
proof -
  obtain tn pn where sk: "split_key key = (tn, pn)" by (cases "split_key key") auto
  note d = aggregate_step_def Let_def sk
  obtain v1 s1 where r1: "reduce items s = Inr (v1, s1)"
    using not_isl_Inr[of "reduce items s"] assms(2) by auto
  obtain v2 s2 where r2: "reduce items s1 = Inr (v2, s2)"
    using not_isl_Inr[of "reduce items s1"] assms(2) by auto
  have br: "dict_of ([(''task_name'', Name (Some tn)), (''prompt_name'', Name pn), (metric, Value v2)]
              @ map (\<lambda>kl. (fst kl, Logged (snd kl))) (get_logging_info key))
            = base_record (split_key key) metric v2 (get_logging_info key)"
    by (simp add: base_record_def sk)
  show ?thesis
  proof (cases "stderr_for_metric reduce (stderr_iters metric bootstrap_iters)")
    case None
    have "aggregate_step split_key aggregation get_logging_info stderr_for_metric bootstrap_iters
         (results, metric_results, s) ((key, metric), items)
        = Inr (set_item (set_item (set_item results key ''task_name'' (Name (Some tn)))
                   key ''prompt_name'' (Name pn)) key metric (Value v1),
               metric_results @ [base_record (split_key key) metric v2 (get_logging_info key)], s2)"
      by (simp add: d assms(1) r1 r2 None br del: append.simps)
    then show ?thesis
      using None r2 by (simp add: table_lookup_set_item r1 base_record_stderr)
  next
    case (Some stderr)
    obtain e1 s3 where r3: "stderr items s2 = Inr (e1, s3)"
      using not_isl_Inr[of "stderr items s2"] assms(3) Some by auto
    obtain e2 s4 where r4: "stderr items s3 = Inr (e2, s4)"
      using not_isl_Inr[of "stderr items s3"] assms(3) Some by auto
    have "aggregate_step split_key aggregation get_logging_info stderr_for_metric bootstrap_iters
         (results, metric_results, s) ((key, metric), items)
        = Inr (set_item (set_item (set_item (set_item results key ''task_name'' (Name (Some tn)))
                   key ''prompt_name'' (Name pn)) key metric (Value v1))
                   key (metric @ ''_stderr'') (Value e1),
               metric_results @ [AList.update (metric @ ''_stderr'') (Value e2)
                  (base_record (split_key key) metric v2 (get_logging_info key))], s4)"
      by (simp add: d assms(1) r1 r2 r3 r4 Some br del: append.simps)
    then show ?thesis
      using Some r2 r3 r4 by (simp add: table_lookup_set_item r1 update_conv')
  qed
qed

theorem stderr_reported_iff_estimator_witness:
  "\<exists>results' metric_results' s'.
      example_step (\<lambda>r n. Some example_spread) [1] = Inr (results', metric_results', s')
      \<and> table_lookup results' ''rte+imply'' ''acc'' = Some (Value 1)
      \<and> table_lookup results' ''rte+imply'' ''acc_stderr'' = Some (Value 0)
      \<and> map_of (last metric_results') ''acc_stderr'' = Some (Value 0)"
proof -
  have 1: "example_aggregation ''rte+imply'' ''acc'' = Some example_mean"
    by (simp add: example_aggregation_def)
  have 2: "\<forall>t. \<not> isl (example_mean [1] t)"
    by (simp add: example_mean_def)
  have 3: "\<forall>stderr t. Some example_spread = Some stderr \<longrightarrow> \<not> isl (stderr [1] t)"
    by (auto simp add: example_spread_def)
  have 4: "fst (projr (example_mean [1] 0)) = 1"
    by (simp add: example_mean_def)
  have 5: "example_spread [1] t = Inr (0, t)" for t
    by (simp add: example_spread_def)
  from stderr_reported_iff_estimator[where aggregation = example_aggregation and key = "''rte+imply''"
      and metric = "''acc''" and reduce = example_mean and items = "[1]"
      and stderr_for_metric = "\<lambda>r n. Some example_spread" and bootstrap_iters = 100000
      and split_key = example_split and get_logging_info = example_logging
      and results = "[]" and metric_results = "[]" and s = 0, OF 1 2 3]
  show ?thesis
    unfolding example_step_def 4 by (auto simp add: 5)
qed

text \<open>
  Claim C8 as stated fails: with a single collected value and an estimator defined for
  the metric, the step reports \<open>acc_stderr\<close>, here with the value zero.
\<close>

theorem single_value_stderr_counterexample:
  "example_step (\<lambda>r n. Some example_spread) [1]
     = Inr ([(''rte+imply'', [(''task_name'', Name (Some ''rte'')), (''prompt_name'', Name (Some ''imply'')),
                              (''acc'', Value 1), (''acc_stderr'', Value 0)])],
            [[(''task_name'', Name (Some ''rte'')), (''prompt_name'', Name (Some ''imply'')),
              (''acc'', Value 1), (''prompt_id'', Logged ''p1''), (''acc_stderr'', Value 0)]],
            0)"
  by (simp add: example_step_defs)



text \<open>
  Claim C2, as the code has it. Task keys are the keys of a dictionary, hence distinct.
  If in addition all requests of a document have the same request type, and padding only
  repeats requests of the data set, then every run that ends without an exception
  recovers exactly the constructed triples: the triples \<open>(task_template_key, doc_id,
  sub_index)\<close> read off the deduplicated, sorted buckets are, counted with
  multiplicity, the triples of request construction, which are pairwise different; and for
  every dispatch id \<open>j\<close> of every request type, the bucket of the origin record number
  \<open>j\<close> holds after deduplication exactly one entry with the id \<open>j\<close>. This holds for
  single-process and for padded multi-worker execution.
\<close>

theorem request_response_bijection:
  fixes tasks :: "('a, 'd, 'm) task_stream list" and model :: "('a, 'r) LM"
    and queue :: "('r, 'm) queue"
  assumes "distinct (map fst tasks)"
    and "\<forall>task \<in> set tasks. \<forall>doc \<in> set (snd task).
           \<forall>r \<in> set (snd (snd doc)). \<forall>r' \<in> set (snd (snd doc)). request_type r = request_type r'"
    and "\<forall>xs p. xs \<noteq> [] \<longrightarrow> length (pad xs p) = p" and "\<forall>xs p. set (pad xs p) \<subseteq> set xs"
    and "execute model pad W B (multiplex tasks) = Inr queue"
  shows "mset (recovered queue) = mset (constructed tasks)
    \<and> distinct (constructed tasks)
    \<and> (\<forall>rt j. j < length (dd_get (snd (multiplex tasks)) rt) \<longrightarrow>
          length (filter (\<lambda>x. entry_uid x = j)
            (sorted_bucket (dd_get queue
               (task_template_key (dd_get (snd (multiplex tasks)) rt ! j),
                origin_doc_id (dd_get (snd (multiplex tasks)) rt ! j))))) = 1)"
proof (intro conjI allI impI)
  show "mset (recovered queue) = mset (constructed tasks)"
    using assms by (rule execute_bijection)
  show "distinct (constructed tasks)"
    using assms(1) by (rule distinct_constructed)
next
  fix rt j assume "j < length (dd_get (snd (multiplex tasks)) rt)"
  with assms(3,4,5) show "length (filter (\<lambda>x. entry_uid x = j)
            (sorted_bucket (dd_get queue
               (task_template_key (dd_get (snd (multiplex tasks)) rt ! j),
                origin_doc_id (dd_get (snd (multiplex tasks)) rt ! j))))) = 1"
    by (rule one_survivor)
qed

theorem request_response_bijection_witness:
  "execute example_model pad_cycle 2 2 (multiplex example_tasks) = Inr example_gathered
   \<and> mset (recovered example_gathered) = mset (constructed example_tasks)
   \<and> distinct (constructed example_tasks)
   \<and> length (filter (\<lambda>x. entry_uid x = 2)
        (sorted_bucket (dd_get example_gathered
           (task_template_key (dd_get (snd (multiplex example_tasks)) ''loglikelihood'' ! 2),
            origin_doc_id (dd_get (snd (multiplex example_tasks)) ''loglikelihood'' ! 2))))) = 1"
proof -
  have 1: "distinct (map fst example_tasks)"
    by (simp add: example_tasks_def)
  have 2: "\<forall>task \<in> set example_tasks. \<forall>doc \<in> set (snd task).
             \<forall>r \<in> set (snd (snd doc)). \<forall>r' \<in> set (snd (snd doc)). request_type r = request_type r'"
    by (simp add: example_tasks_def mk_request_def)
  have 3: "execute example_model pad_cycle 2 2 (multiplex example_tasks) = Inr example_gathered"
    by code_simp
  have 4: "(2::nat) < length (dd_get (snd (multiplex example_tasks)) ''loglikelihood'')"
    by code_simp
  from request_response_bijection[OF 1 2 pad_cycle_ok 3] 3 4
  show ?thesis by blast
qed

text \<open>
  Claim C2 as stated fails. Dispatch ids are counted per request type, buckets are kept
  per document: when the two requests of a document have different types, both get the
  id 0, both responses land in the bucket of the document, and deduplication drops the
  second. Two triples are constructed, one is recovered.
\<close>

theorem mixed_types_lose_request_counterexample:
  "constructed example_mixed = [(''rte+imply'', 0, 0), (''rte+imply'', 0, 1)]
   \<and> map unique_request_id (dd_get (fst (multiplex example_mixed)) ''loglikelihood'') = [0]
   \<and> map unique_request_id (dd_get (fst (multiplex example_mixed)) ''greedy_until'') = [0]
   \<and> execute example_both pad_cycle 1 2 (multiplex example_mixed)
      = Inr [((''rte+imply'', 0), [(0, Component (- 10), ''shots a'', 0), (1, Whole [11, 0], ''shots a'', 0)])]
   \<and> recovered [((''rte+imply'', 0), [(0, Component (- 10), ''shots a'', 0), (1, Whole [11, 0], ''shots a'', 0)])]
      = [(''rte+imply'', 0, 0)]"
  by code_simp

end
